theory Spec2Isabelle
  imports Complex_Main "HOL-Library.Multiset" "HOL-Library.Sublist"
begin

section \<open>Strings, rectangles and errors\<close>

text \<open>
  Python strings are sequences of Unicode code points. The symbol table of the tagger has
  keys far outside ASCII, so a character is a code point (a natural number) and a string a
  list of code points. ASCII literals of the source are written with \<open>u\<close>.
  Coordinates and font sizes are Python floats; they are modelled as real numbers
  (\<open>min\<close>, \<open>max\<close> and comparisons of floats are exact, so bounding boxes are exact;
  quotients are idealised).
\<close>

type_synonym uchar = nat
type_synonym ustring = "uchar list"

definition u :: "string \<Rightarrow> ustring" where
  "u s = map of_char s"

type_synonym rect = "real \<times> real \<times> real \<times> real"

datatype py_error = IndexError | KeyError

datatype messagebox =
    ShowInfo string string
  | ShowWarning string string

section \<open>The tagger (all.py): state\<close>

text \<open>
  A region is the dictionary \<open>{id, rect, text, tag}\<close>. The PDF provider is external: a page
  answers \<open>get_text('dict', clip=rect)\<close> with blocks of lines of spans, each span with its
  text, font size and style flags.
\<close>

record region =
  r_id :: ustring
  r_rect :: rect
  r_text :: ustring
  r_tag :: ustring

record span =
  s_text :: ustring
  s_size :: real
  s_flags :: nat

type_synonym page = "rect \<Rightarrow> span list list list"

text \<open>
  \<open>State\<close>: the fields the algorithms read or write. The presentation fields (zoom, image
  holder, drag start, rubber-band rectangle id) belong to the canvas and are left out.
\<close>

record state =
  doc :: "page list option"
  page_index :: nat
  regions :: "nat \<rightharpoonup> region list"
  selected_region :: "(nat \<times> nat) option"
  undo_stack :: "(nat \<rightharpoonup> region list) list"
  redo_stack :: "(nat \<rightharpoonup> region list) list"

definition push_undo :: "state \<Rightarrow> state" where
  "push_undo st = st\<lparr>undo_stack := undo_stack st @ [regions st], redo_stack := []\<rparr>"

section \<open>Heading inference by font size\<close>

text \<open>The regions of the current page, as \<open>state.regions.get(state.page_index, [])\<close> reads them.\<close>

definition current_regions :: "state \<Rightarrow> region list" where
  "current_regions st = (case regions st (page_index st) of None \<Rightarrow> [] | Some rs \<Rightarrow> rs)"

text \<open>
  The average font size of a region: the mean of the non-zero span sizes the provider
  reports inside its rectangle, \<open>0.0\<close> when there is none.
\<close>

definition region_avg_size :: "page \<Rightarrow> region \<Rightarrow> real" where
  "region_avg_size pg r =
     (let szs = filter (\<lambda>sz. sz \<noteq> 0) (map s_size (concat (concat (pg (r_rect r)))));
          total_sz = sum_list szs;
          count = length szs
      in if count > 0 then total_sz / real count else 0)"

definition max_sizes :: "real list \<Rightarrow> real" where
  "max_sizes sizes = (if sizes \<noteq> [] then fold max (tl sizes) (hd sizes) else 0)"

definition new_tag_of :: "real \<Rightarrow> real \<Rightarrow> string" where
  "new_tag_of avg max_sz =
     (let ratio = (if max_sz > 0 then avg / max_sz else 0)
      in if ratio > 0.9 then ''h1''
         else if ratio > 0.75 then ''h2''
         else if ratio > 0.6 then ''h3''
         else ''p'')"

definition retag :: "real \<Rightarrow> region \<Rightarrow> real \<Rightarrow> region" where
  "retag max_sz r avg =
     (let new_tag = u (new_tag_of avg max_sz)
      in r\<lparr>r_tag := new_tag, r_id := new_tag @ u ''_'' @ r_id r\<rparr>)"

definition infer_headings_for_page :: "state \<Rightarrow> py_error + messagebox \<times> state" where
  "infer_headings_for_page st =
     (case doc st of
        None \<Rightarrow> Inr (ShowInfo ''Info'' ''Open a PDF first'', st)
      | Some d \<Rightarrow>
          if page_index st \<ge> length d then Inl IndexError
          else
            let pg = d ! page_index st;
                regs = current_regions st
            in if regs = [] then
                 Inr (ShowInfo ''Info'' ''No regions on this page to infer headings for.'', st)
               else
                 let sizes = map (region_avg_size pg) regs;
                     max_sz = max_sizes sizes
                 in if max_sz \<le> 0 then
                      Inr (ShowInfo ''Info'' ''Could not detect font sizes on this page.'', st)
                    else
                      let st1 = push_undo st;
                          regs' = map2 (retag max_sz) regs sizes
                      in Inr (ShowInfo ''Headings'' ''Heading inference completed for current page.'',
                              st1\<lparr>regions := (regions st1)(page_index st \<mapsto> regs')\<rparr>))"

definition current_sizes :: "state \<Rightarrow> page \<Rightarrow> real list" where
  "current_sizes st pg = map (region_avg_size pg) (current_regions st)"

text \<open>A page whose every span has the given size when the rectangle's left edge is that size:
  a provider used to evaluate the classifier on concrete input.\<close>

definition page_by_x0 :: page where
  "page_by_x0 = (\<lambda>(x0, y0, x1, y1). [[[\<lparr>s_text = u ''t'', s_size = x0, s_flags = 0\<rparr>]]])"

definition region_of_size :: "string \<Rightarrow> real \<Rightarrow> region" where
  "region_of_size i sz = \<lparr>r_id = u i, r_rect = (sz, 0, 100, 10), r_text = u ''t'', r_tag = u ''p''\<rparr>"

definition state_of_regions :: "region list \<Rightarrow> state" where
  "state_of_regions rs =
     \<lparr>doc = Some [page_by_x0], page_index = 0, regions = [0 \<mapsto> rs],
      selected_region = None, undo_stack = [], redo_stack = []\<rparr>"

definition tags_after :: "state \<Rightarrow> ustring list option" where
  "tags_after st =
     (case infer_headings_for_page st of
        Inl e \<Rightarrow> None
      | Inr (m, st') \<Rightarrow> Some (map r_tag (current_regions st')))"


section \<open>Python string operations\<close>

text \<open>
  \<open>s.replace(old, new)\<close>: the leftmost occurrences of \<open>old\<close>, not overlapping, each replaced
  by \<open>new\<close>. With an empty \<open>old\<close> Python puts \<open>new\<close> before every character and at the end.
\<close>

function replace_str :: "ustring \<Rightarrow> ustring \<Rightarrow> ustring \<Rightarrow> ustring" where
  "replace_str old new [] = (if old = [] then new else [])"
| "replace_str old new (c # cs) =
     (if old = [] then new @ c # replace_str old new cs
      else if prefix old (c # cs) then new @ replace_str old new (drop (length old) (c # cs))
      else c # replace_str old new cs)"
  by pat_completeness auto
termination
  by (relation "measure (\<lambda>(old, new, s). length s)") auto

fun py_join :: "'a list \<Rightarrow> 'a list list \<Rightarrow> 'a list" where
  "py_join sep [] = []"
| "py_join sep [x] = x"
| "py_join sep (x # y # ys) = x @ sep @ py_join sep (y # ys)"

text \<open>The code points for which \<open>str.isspace\<close> holds; the class \<open>\s\<close> of \<open>re\<close> is the same set.\<close>

definition isspace :: "uchar \<Rightarrow> bool" where
  "isspace c \<longleftrightarrow> c \<in> set [9, 10, 11, 12, 13, 28, 29, 30, 31, 32, 133, 160, 5760,
     8192, 8193, 8194, 8195, 8196, 8197, 8198, 8199, 8200, 8201, 8202,
     8232, 8233, 8239, 8287, 12288]"

definition strip :: "ustring \<Rightarrow> ustring" where
  "strip s = rev (dropWhile isspace (rev (dropWhile isspace s)))"

text \<open>
  \<open>str.lower\<close> on the ASCII letters. The tagger lowers tag names and the first characters
  of a matched tag pair; code points outside ASCII are left as they are.
\<close>

definition py_lower :: "ustring \<Rightarrow> ustring" where
  "py_lower s = map (\<lambda>c. if 65 \<le> c \<and> c \<le> 90 then c + 32 else c) s"

text \<open>\<open>str(n)\<close> for a non-negative integer: its decimal digits.\<close>

function str_nat :: "nat \<Rightarrow> ustring" where
  "str_nat n = (if n < 10 then [48 + n] else str_nat (n div 10) @ [48 + n mod 10])"
  by pat_completeness auto
termination
  by (relation "measure id") auto

text \<open>The same digits as an ASCII string, for the texts of message boxes.\<close>

function str_nat_s :: "nat \<Rightarrow> string" where
  "str_nat_s n =
     (if n < 10 then [''0123456789'' ! n]
      else str_nat_s (n div 10) @ [''0123456789'' ! (n mod 10)])"
  by pat_completeness auto
termination
  by (relation "measure id") auto

section \<open>Symbol entities\<close>

text \<open>
  \<open>HTML_ENTITY_MAP\<close>, in the order of the dictionary literal. Every key of the source is a
  string of one character; the table gives its code point.
\<close>

definition HTML_ENTITY_MAP :: "(uchar \<times> string) list" where
  "HTML_ENTITY_MAP =
     [(169, ''&copy;''), (174, ''&reg;''), (8482, ''&trade;''), (8212, ''&mdash;''),
      (8211, ''&ndash;''), (183, ''&middot;''), (8230, ''&hellip;''), (8220, ''&ldquo;''),
      (8221, ''&rdquo;''), (8216, ''&lsquo;''), (8217, ''&rsquo;''), (8226, ''&bull;''),
      (176, ''&deg;''), (163, ''&pound;''), (8364, ''&euro;''), (8377, ''&#8377;''),
      (177, ''&plusmn;''), (215, ''&times;''), (247, ''&divide;''), (8804, ''&le;''),
      (8805, ''&ge;''), (8800, ''&ne;''), (8776, ''&asymp;''), (8801, ''&equiv;''),
      (8764, ''&sim;''), (8721, ''&sum;''), (8719, ''&prod;''), (8747, ''&int;''),
      (8730, ''&radic;''), (8734, ''&infin;''), (8706, ''&part;''), (8711, ''&nabla;''),
      (8712, ''&in;''), (8713, ''&notin;''), (8709, ''&#8709;''), (8733, ''&prop;''),
      (8756, ''&there4;''), (8757, ''&because;''), (8658, ''&rArr;''), (8660, ''&hArr;''),
      (8592, ''&larr;''), (8594, ''&rarr;''), (8596, ''&harr;''), (8614, ''&#8614;''),
      (8773, ''&cong;''), (8727, ''&lowast;''), (945, ''&alpha;''), (946, ''&beta;''),
      (947, ''&gamma;''), (948, ''&delta;''), (949, ''&epsilon;''), (950, ''&zeta;''),
      (951, ''&eta;''), (952, ''&theta;''), (953, ''&iota;''), (954, ''&kappa;''),
      (955, ''&lambda;''), (956, ''&mu;''), (957, ''&nu;''), (958, ''&xi;''),
      (959, ''&omicron;''), (960, ''&pi;''), (961, ''&rho;''), (963, ''&sigma;''),
      (964, ''&tau;''), (965, ''&upsilon;''), (966, ''&phi;''), (967, ''&chi;''),
      (968, ''&psi;''), (969, ''&omega;''), (962, ''&sigmaf;''), (977, ''&#976;''),
      (913, ''&Alpha;''), (914, ''&Beta;''), (915, ''&Gamma;''), (916, ''&Delta;''),
      (917, ''&Epsilon;''), (918, ''&Zeta;''), (919, ''&Eta;''), (920, ''&Theta;''),
      (921, ''&Iota;''), (922, ''&Kappa;''), (923, ''&Lambda;''), (924, ''&Mu;''),
      (925, ''&Nu;''), (926, ''&Xi;''), (927, ''&Omicron;''), (928, ''&Pi;''),
      (929, ''&Rho;''), (931, ''&Sigma;''), (932, ''&Tau;''), (933, ''&Upsilon;''),
      (934, ''&Phi;''), (935, ''&Chi;''), (936, ''&Psi;''), (937, ''&Omega;''),
      (225, ''&aacute;''), (224, ''&agrave;''), (226, ''&acirc;''), (228, ''&auml;''),
      (227, ''&atilde;''), (229, ''&aring;''), (193, ''&Aacute;''), (192, ''&Agrave;''),
      (194, ''&Acirc;''), (196, ''&Auml;''), (195, ''&Atilde;''), (197, ''&Aring;''),
      (233, ''&eacute;''), (232, ''&egrave;''), (234, ''&ecirc;''), (235, ''&euml;''),
      (201, ''&Eacute;''), (200, ''&Egrave;''), (202, ''&Ecirc;''), (203, ''&Euml;''),
      (237, ''&iacute;''), (236, ''&igrave;''), (238, ''&icirc;''), (239, ''&iuml;''),
      (205, ''&Iacute;''), (204, ''&Igrave;''), (206, ''&Icirc;''), (207, ''&Iuml;''),
      (243, ''&oacute;''), (242, ''&ograve;''), (244, ''&ocirc;''), (246, ''&ouml;''),
      (245, ''&otilde;''), (211, ''&Oacute;''), (210, ''&Ograve;''), (212, ''&Ocirc;''),
      (214, ''&Ouml;''), (213, ''&Otilde;''), (250, ''&uacute;''), (249, ''&ugrave;''),
      (251, ''&ucirc;''), (252, ''&uuml;''), (218, ''&Uacute;''), (217, ''&Ugrave;''),
      (219, ''&Ucirc;''), (220, ''&Uuml;''), (241, ''&ntilde;''), (209, ''&Ntilde;''),
      (231, ''&ccedil;''), (199, ''&Ccedil;''), (339, ''&oelig;''), (338, ''&OElig;''),
      (230, ''&aelig;''), (198, ''&AElig;''), (8249, ''&lsaquo;''), (8250, ''&rsaquo;''),
      (171, ''&laquo;''), (187, ''&raquo;'')]"

definition apply_html_entities :: "ustring \<Rightarrow> ustring" where
  "apply_html_entities text =
     (if text = [] then text
      else fold (\<lambda>(k, v) t. replace_str [k] (u v) t) HTML_ENTITY_MAP text)"

text \<open>What a table does to one character: its entity if it is a key, itself otherwise.\<close>

definition subst_of :: "(uchar \<times> string) list \<Rightarrow> uchar \<Rightarrow> ustring" where
  "subst_of tbl c = (case map_of tbl c of Some v \<Rightarrow> u v | None \<Rightarrow> [c])"

definition entity_of :: "uchar \<Rightarrow> ustring" where
  "entity_of c = subst_of HTML_ENTITY_MAP c"

section \<open>Bold and italic spans\<close>

text \<open>The two global settings of the tagger, passed explicitly.\<close>

record config =
  AUTO_ENTITIES :: bool
  NESTING_PREF :: string

definition wrap_span_text :: "config \<Rightarrow> ustring \<Rightarrow> bool \<Rightarrow> bool \<Rightarrow> ustring" where
  "wrap_span_text cfg s is_bold is_italic =
     (if is_bold \<and> is_italic then
        (if NESTING_PREF cfg = ''b_outside_i'' then u ''<b><i>'' @ s @ u ''</i></b>''
         else u ''<i><b>'' @ s @ u ''</b></i>'')
      else if is_bold then u ''<b>'' @ s @ u ''</b>''
      else if is_italic then u ''<i>'' @ s @ u ''</i>''
      else s)"

definition span_part :: "config \<Rightarrow> span \<Rightarrow> ustring option" where
  "span_part cfg sp =
     (let s = s_text sp in
      if s = [] then None
      else let s = strip (replace_str (u [CHR 0x0A]) (u '' '') s) in
        if s = [] then None
        else let flags = s_flags sp;
                 is_italic = odd (flags div 2);
                 is_bold = odd (flags div 16)
             in Some (wrap_span_text cfg s is_bold is_italic))"

definition extract_text_from_rect :: "config \<Rightarrow> page \<Rightarrow> rect \<Rightarrow> ustring" where
  "extract_text_from_rect cfg pg rect =
     (let lines = concat (pg rect);
          txt_parts = concat (map (\<lambda>line.
              let line_parts = List.map_filter (span_part cfg) line
              in if line_parts \<noteq> [] then [py_join (u '' '') line_parts] else []) lines)
      in strip (py_join (u [CHR 0x0A]) txt_parts))"

section \<open>HTML escaping that keeps bold, italic and entities\<close>

text \<open>
  The four regular expressions of \<open>escape_html_keep_bi_and_entities\<close> all have the shape
  \<open>PRE(.*?)POST\<close>, compiled with \<open>re.S | re.I\<close>, where \<open>PRE\<close> and \<open>POST\<close> are sequences of
  literal characters and \<open>\s*\<close>. A literal is matched ignoring case: \<open>b\<close> matches \<open>b\<close> and
  \<open>B\<close>; \<open>i\<close> matches \<open>i\<close>, \<open>I\<close> and, in Python's Unicode matching, U+0130 and U+0131.
  In these patterns \<open>\s*\<close> is always followed by the literal \<open><\<close>, which is not white
  space, so it can only match the whole run of white space: no backtracking into it.
\<close>

datatype atom = Lit "uchar list" | Ws

definition ignorecase :: "char \<Rightarrow> atom" where
  "ignorecase c =
     (if c = CHR ''b'' then Lit [98, 66]
      else if c = CHR ''i'' then Lit [105, 73, 304, 305]
      else Lit [of_char c])"

definition lits :: "string \<Rightarrow> atom list" where
  "lits s = map ignorecase s"

fun match_atoms :: "atom list \<Rightarrow> ustring \<Rightarrow> ustring option" where
  "match_atoms [] s = Some s"
| "match_atoms (Lit cs # as) [] = None"
| "match_atoms (Lit cs # as) (c # s) = (if c \<in> set cs then match_atoms as s else None)"
| "match_atoms (Ws # as) s = match_atoms as (dropWhile isspace s)"

text \<open>
  \<open>(.*?)POST\<close> with \<open>re.S\<close>: the shortest run of arbitrary characters after which \<open>POST\<close>
  matches. The result is the captured group and what follows the match.
\<close>

fun lazy_find :: "atom list \<Rightarrow> ustring \<Rightarrow> (ustring \<times> ustring) option" where
  "lazy_find post [] = (case match_atoms post [] of Some r \<Rightarrow> Some ([], r) | None \<Rightarrow> None)"
| "lazy_find post (c # cs) =
     (case match_atoms post (c # cs) of
        Some r \<Rightarrow> Some ([], r)
      | None \<Rightarrow> (case lazy_find post cs of
                   Some (inner, r) \<Rightarrow> Some (c # inner, r)
                 | None \<Rightarrow> None))"

definition match_pat :: "atom list \<Rightarrow> atom list \<Rightarrow> ustring \<Rightarrow> (ustring \<times> ustring) option" where
  "match_pat pre post s =
     (case match_atoms pre s of None \<Rightarrow> None | Some s1 \<Rightarrow> lazy_find post s1)"

text \<open>
  \<open>re.sub(pattern, repl, text)\<close> with a function \<open>repl\<close> that receives the whole match
  (\<open>m.group(0)\<close>) and the group (\<open>m.group(1)\<close>): scan from the left; where the pattern
  matches, emit the replacement and go on after the match; elsewhere copy one character.
  An empty match (none of the patterns here has one) emits the replacement and copies the
  character.
\<close>

function re_sub :: "atom list \<Rightarrow> atom list \<Rightarrow> (ustring \<Rightarrow> ustring \<Rightarrow> ustring) \<Rightarrow> ustring \<Rightarrow> ustring" where
  "re_sub pre post repl [] =
     (case match_pat pre post [] of Some (inner, rest) \<Rightarrow> repl [] inner | None \<Rightarrow> [])"
| "re_sub pre post repl (c # cs) =
     (case match_pat pre post (c # cs) of
        Some (inner, rest) \<Rightarrow>
          if length rest < length (c # cs)
          then repl (take (length (c # cs) - length rest) (c # cs)) inner
                 @ re_sub pre post repl rest
          else repl [] inner @ c # re_sub pre post repl cs
      | None \<Rightarrow> c # re_sub pre post repl cs)"
  by pat_completeness auto
termination
  by (relation "measure (\<lambda>(pre, post, repl, s). length s)") auto

definition ph_b_open :: ustring where "ph_b_open = u ''@@B_OPEN@@''"
definition ph_b_close :: ustring where "ph_b_close = u ''@@B_CLOSE@@''"
definition ph_i_open :: ustring where "ph_i_open = u ''@@I_OPEN@@''"
definition ph_i_close :: ustring where "ph_i_close = u ''@@I_CLOSE@@''"

definition escape_angle :: "ustring \<Rightarrow> ustring" where
  "escape_angle s = replace_str (u ''>'') (u ''&gt;'') (replace_str (u ''<'') (u ''&lt;'') s)"

definition startswith :: "ustring \<Rightarrow> ustring \<Rightarrow> bool" where
  "startswith s p = prefix p s"

definition protect_nested :: "ustring \<Rightarrow> ustring \<Rightarrow> ustring" where
  "protect_nested seq inner =
     (let inner_escaped = escape_angle inner
      in if startswith (py_lower seq) (u ''<b>'')
         then ph_b_open @ ph_i_open @ inner_escaped @ ph_i_close @ ph_b_close
         else ph_i_open @ ph_b_open @ inner_escaped @ ph_b_close @ ph_i_close)"

definition protect_b :: "ustring \<Rightarrow> ustring \<Rightarrow> ustring" where
  "protect_b seq inner = ph_b_open @ escape_angle inner @ ph_b_close"

definition protect_i :: "ustring \<Rightarrow> ustring \<Rightarrow> ustring" where
  "protect_i seq inner = ph_i_open @ escape_angle inner @ ph_i_close"

text \<open>
  The character classes of the entity test. \<open>\d\<close> is Unicode's decimal digits (category Nd,
  Unicode 14 of Python 3.11): blocks of ten consecutive code points, and the fifty
  mathematical digits from U+1D7CE.
\<close>

definition decimal_blocks :: "nat list" where
  "decimal_blocks =
     [48, 1632, 1776, 1984, 2406, 2534, 2662, 2790, 2918, 3046, 3174, 3302, 3430, 3558, 3664,
      3792, 3872, 4160, 4240, 6112, 6160, 6470, 6608, 6784, 6800, 6992, 7088, 7232, 7248,
      42528, 43216, 43264, 43472, 43504, 43600, 44016, 65296, 66720, 68912, 69734, 69872,
      69942, 70096, 70384, 70736, 70864, 71248, 71360, 71472, 71904, 72016, 72784, 73040,
      73120, 92768, 92864, 93008, 120782, 120792, 120802, 120812, 120822, 123200, 123632,
      125264, 130032]"

definition is_decimal :: "uchar \<Rightarrow> bool" where
  "is_decimal c \<longleftrightarrow> (\<exists>b \<in> set decimal_blocks. b \<le> c \<and> c < b + 10)"

definition is_hex :: "uchar \<Rightarrow> bool" where
  "is_hex c \<longleftrightarrow> (48 \<le> c \<and> c \<le> 57) \<or> (97 \<le> c \<and> c \<le> 102) \<or> (65 \<le> c \<and> c \<le> 70)"

definition is_alpha :: "uchar \<Rightarrow> bool" where
  "is_alpha c \<longleftrightarrow> (97 \<le> c \<and> c \<le> 122) \<or> (65 \<le> c \<and> c \<le> 90)"

definition is_alnum :: "uchar \<Rightarrow> bool" where
  "is_alnum c \<longleftrightarrow> is_alpha c \<or> (48 \<le> c \<and> c \<le> 57)"

text \<open>
  \<open>C+;\<close> at the start of a string, for a class \<open>C\<close> that does not contain the semicolon:
  the longest run of \<open>C\<close> is not empty and a semicolon follows it.
\<close>

definition plus_semi :: "(uchar \<Rightarrow> bool) \<Rightarrow> ustring \<Rightarrow> bool" where
  "plus_semi cls s \<longleftrightarrow> takeWhile cls s \<noteq> [] \<and> (case dropWhile cls s of [] \<Rightarrow> False | c # r \<Rightarrow> c = 59)"

text \<open>\<open>re.match(r'(#\d+;|#x[0-9a-fA-F]+;|[a-zA-Z][a-zA-Z0-9]+;)', following)\<close> succeeds.\<close>

definition entity_match :: "ustring \<Rightarrow> bool" where
  "entity_match following =
     (case following of
        [] \<Rightarrow> False
      | c # cs \<Rightarrow>
          (c = 35 \<and> plus_semi is_decimal cs)
          \<or> (c = 35 \<and> (case cs of [] \<Rightarrow> False | x # r \<Rightarrow> x = 120 \<and> plus_semi is_hex r))
          \<or> (is_alpha c \<and> plus_semi is_alnum cs))"

text \<open>
  \<open>re.sub(r'&', amp_repl, text_prot)\<close>: every ampersand looks at the thirty characters
  that follow it in the string being scanned.
\<close>

fun amp_sub :: "ustring \<Rightarrow> ustring" where
  "amp_sub [] = []"
| "amp_sub (c # cs) =
     (if c = 38 then (if entity_match (take 30 cs) then u ''&'' else u ''&amp;'') @ amp_sub cs
      else c # amp_sub cs)"

definition restore_placeholders :: "ustring \<Rightarrow> ustring" where
  "restore_placeholders t =
     (let t = replace_str ph_b_close (u ''</b>'') (replace_str ph_b_open (u ''<b>'') t)
      in replace_str ph_i_close (u ''</i>'') (replace_str ph_i_open (u ''<i>'') t))"

definition protect_tags :: "ustring \<Rightarrow> ustring" where
  "protect_tags text =
     (let text_prot = re_sub (lits ''<b>'' @ [Ws] @ lits ''<i>'') (lits ''</i>'' @ [Ws] @ lits ''</b>'')
                        protect_nested text;
          text_prot = re_sub (lits ''<i>'' @ [Ws] @ lits ''<b>'') (lits ''</b>'' @ [Ws] @ lits ''</i>'')
                        protect_nested text_prot;
          text_prot = re_sub (lits ''<b>'') (lits ''</b>'') protect_b text_prot;
          text_prot = re_sub (lits ''<i>'') (lits ''</i>'') protect_i text_prot
      in text_prot)"

definition escape_html_keep_bi_and_entities :: "ustring \<Rightarrow> ustring" where
  "escape_html_keep_bi_and_entities text =
     (if text = [] then []
      else let text_prot = protect_tags text;
               text_prot = escape_angle text_prot;
               text_prot = amp_sub text_prot
           in restore_placeholders text_prot)"

section \<open>Nested sections from an ordered region list\<close>

text \<open>
  The lines appended to \<open>out\<close>. A section line carries the numbers of its id (the page
  number, then the counters of levels 1 to its own), rendered as the dotted id when the
  line is written.
\<close>

datatype line =
    SectionOpen "nat list"
  | SectionClose
  | Element ustring ustring ustring

definition dq :: ustring where
  "dq = [34]"

fun render_line :: "line \<Rightarrow> ustring" where
  "render_line (SectionOpen nums) =
     u ''<section id='' @ dq @ py_join (u ''.'') (map str_nat nums) @ dq @ u ''>''"
| "render_line SectionClose = u ''</section>''"
| "render_line (Element tag rid text_esc) =
     u ''<'' @ tag @ u '' id='' @ dq @ rid @ dq @ u ''>'' @ text_esc @ u ''</'' @ tag @ u ''>''"

record builder =
  counters :: "nat list"
  open_stack :: "nat list"
  out :: "line list"
  base_opened :: bool

definition builder_init :: builder where
  "builder_init = \<lparr>counters = [0, 0, 0, 0, 0], open_stack = [], out = [], base_opened = False\<rparr>"

definition level_map :: "ustring \<Rightarrow> nat option" where
  "level_map = map_of [(u ''h1'', 1), (u ''h2'', 2), (u ''h3'', 3), (u ''h4'', 4)]"

text \<open>\<open>close_to_level\<close>: the top of the stack is the last element of the list.\<close>

function close_to_level :: "nat \<Rightarrow> builder \<Rightarrow> builder" where
  "close_to_level target_level b =
     (if open_stack b \<noteq> [] \<and> last (open_stack b) \<ge> target_level
      then close_to_level target_level
             (b\<lparr>out := out b @ [SectionClose], open_stack := butlast (open_stack b)\<rparr>)
      else b)"
  by pat_completeness auto
termination
  by (relation "measure (\<lambda>(t, b). length (open_stack b))") auto

function close_all :: "builder \<Rightarrow> builder" where
  "close_all b =
     (if open_stack b \<noteq> []
      then close_all (b\<lparr>out := out b @ [SectionClose], open_stack := butlast (open_stack b)\<rparr>)
      else b)"
  by pat_completeness auto
termination
  by (relation "measure (\<lambda>b. length (open_stack b))") auto

definition open_base :: "nat \<Rightarrow> builder \<Rightarrow> builder" where
  "open_base page_idx b =
     (if \<not> base_opened b
      then b\<lparr>out := out b @ [SectionOpen [page_idx + 1]],
             open_stack := open_stack b @ [0], base_opened := True\<rparr>
      else b)"

definition region_text_esc :: "config \<Rightarrow> page \<Rightarrow> region \<Rightarrow> ustring" where
  "region_text_esc cfg pg r =
     (let text = (if r_text r \<noteq> [] then r_text r
                  else extract_text_from_rect cfg pg (r_rect r));
          text = (if AUTO_ENTITIES cfg then apply_html_entities text else text)
      in escape_html_keep_bi_and_entities text)"

definition region_tag :: "region \<Rightarrow> ustring" where
  "region_tag r = py_lower (if r_tag r \<noteq> [] then r_tag r else u ''p'')"

definition bump_counters :: "nat \<Rightarrow> nat list \<Rightarrow> nat list" where
  "bump_counters lvl cs = fold (\<lambda>lower c. c[lower := 0]) [lvl + 1..<5] (cs[lvl := cs ! lvl + 1])"

definition build_step :: "config \<Rightarrow> nat \<Rightarrow> page \<Rightarrow> region \<Rightarrow> builder \<Rightarrow> builder" where
  "build_step cfg page_idx pg r b =
     (let tag = region_tag r;
          text_esc = region_text_esc cfg pg r
      in case level_map tag of
           Some lvl \<Rightarrow>
             let b = b\<lparr>counters := bump_counters lvl (counters b)\<rparr>;
                 b = open_base page_idx b;
                 b = close_to_level lvl b;
                 nums = (page_idx + 1) # map (\<lambda>i. counters b ! i) [1..<lvl + 1]
             in b\<lparr>out := out b @ [SectionOpen nums, Element tag (r_id r) text_esc],
                   open_stack := open_stack b @ [lvl]\<rparr>
         | None \<Rightarrow>
             let b = open_base page_idx b
             in b\<lparr>out := out b @ [Element tag (r_id r) text_esc]\<rparr>)"

text \<open>The state of the builder after the loop over the regions, before the final closing.\<close>

definition build_loop :: "config \<Rightarrow> region list \<Rightarrow> nat \<Rightarrow> page \<Rightarrow> builder" where
  "build_loop cfg regs page_idx pg = fold (build_step cfg page_idx pg) regs builder_init"

definition build_lines :: "config \<Rightarrow> region list \<Rightarrow> nat \<Rightarrow> page \<Rightarrow> line list" where
  "build_lines cfg regs page_idx pg = out (close_all (build_loop cfg regs page_idx pg))"

definition build_nested_sections_from_regions ::
    "config \<Rightarrow> region list \<Rightarrow> nat \<Rightarrow> page \<Rightarrow> ustring" where
  "build_nested_sections_from_regions cfg regs page_idx pg =
     py_join (u [CHR 0x0A]) (map render_line (build_lines cfg regs page_idx pg))"

text \<open>What the claims speak of: the ids of the sections opened, in document order, and the
  depth of the stack of open sections after each region.\<close>

fun section_ids :: "line list \<Rightarrow> nat list list" where
  "section_ids [] = []"
| "section_ids (SectionOpen nums # ls) = nums # section_ids ls"
| "section_ids (l # ls) = section_ids ls"

definition count_sections :: "line list \<Rightarrow> nat" where
  "count_sections ls = length (section_ids ls)"

definition open_depths :: "config \<Rightarrow> region list \<Rightarrow> nat \<Rightarrow> page \<Rightarrow> nat list" where
  "open_depths cfg regs page_idx pg =
     map (\<lambda>n. length (open_stack (build_loop cfg (take n regs) page_idx pg))) [0..<length regs + 1]"

definition default_config :: config where
  "default_config = \<lparr>AUTO_ENTITIES = True, NESTING_PREF = ''b_outside_i''\<rparr>"

definition empty_page :: page where
  "empty_page = (\<lambda>r. [])"

definition mk_region :: "string \<Rightarrow> string \<Rightarrow> string \<Rightarrow> region" where
  "mk_region i tg txt = \<lparr>r_id = u i, r_rect = (0, 0, 10, 10), r_text = u txt, r_tag = u tg\<rparr>"

text \<open>
  The order of section ids. The numbers of an id after the page number, padded with zeros
  to the four heading levels, are the counters at the time the section was opened; ids
  are compared by these, lexicographically.
\<close>

definition lex_lt :: "nat list \<Rightarrow> nat list \<Rightarrow> bool" where
  "lex_lt xs ys \<longleftrightarrow> (xs, ys) \<in> lexord {(a, b). a < b}"

definition id_key :: "nat list \<Rightarrow> nat list" where
  "id_key nums = tl nums @ replicate (5 - length nums) 0"

text \<open>The invariant of the loop of the builder.\<close>

definition builder_inv :: "builder \<Rightarrow> bool" where
  "builder_inv b \<longleftrightarrow>
     length (counters b) = 5
     \<and> sorted_wrt (<) (open_stack b)
     \<and> (\<forall>x \<in> set (open_stack b). x \<le> 4)
     \<and> (\<not> base_opened b \<longrightarrow> section_ids (out b) = [] \<and> open_stack b = [])
     \<and> sorted_wrt lex_lt (map id_key (section_ids (out b)))
     \<and> (\<forall>nums \<in> set (section_ids (out b)).
           1 \<le> length nums \<and> length nums \<le> 5
           \<and> (id_key nums = tl (counters b) \<or> lex_lt (id_key nums) (tl (counters b))))"

definition h1_h3 :: "region list" where
  "h1_h3 = [mk_region ''r1'' ''h1'' ''Intro'', mk_region ''r2'' ''h3'' ''Detail'']"

definition h1_to_h4 :: "region list" where
  "h1_to_h4 = [mk_region ''r1'' ''h1'' ''A'', mk_region ''r2'' ''h2'' ''B'',
               mk_region ''r3'' ''h3'' ''C'', mk_region ''r4'' ''h4'' ''D'']"

definition h1_h2_h2 :: "region list" where
  "h1_h2_h2 = [mk_region ''r1'' ''h1'' ''A'', mk_region ''r2'' ''h2'' ''B'',
               mk_region ''r3'' ''h2'' ''C'']"

section \<open>The paragraph editor (zone.py)\<close>

text \<open>
  A word of the provider is the tuple \<open>(x0, y0, x1, y1, text, ...)\<close>; a paragraph is the
  dictionary \<open>{bbox, text, words}\<close>.
\<close>

record word =
  w_x0 :: real
  w_y0 :: real
  w_x1 :: real
  w_y1 :: real
  w_text :: ustring

record para =
  p_bbox :: rect
  p_text :: ustring
  p_words :: "word list"

record click =
  c_page :: nat
  c_para_index :: nat
  c_x :: real
  c_y :: real

record editor =
  paragraphs_by_page :: "nat \<rightharpoonup> para list"
  current_page :: nat
  selected_indices :: "nat set"
  ed_undo_stack :: "(nat \<rightharpoonup> para list) list"
  last_right_click :: "click option"

definition bbox_merge :: "rect \<Rightarrow> rect \<Rightarrow> rect" where
  "bbox_merge b1 b2 =
     (case b1 of (a0, a1, a2, a3) \<Rightarrow> case b2 of (c0, c1, c2, c3) \<Rightarrow>
        (min a0 c0, min a1 c1, max a2 c2, max a3 c3))"

definition hypot :: "real \<Rightarrow> real \<Rightarrow> real" where
  "hypot a b = sqrt (a * a + b * b)"

text \<open>The loop of \<open>nearest_word_index\<close>, carrying \<open>(best_i, best_d)\<close>; \<open>None\<close> before the
  first word.\<close>

fun nearest_loop :: "word list \<Rightarrow> real \<Rightarrow> real \<Rightarrow> nat \<Rightarrow> (nat \<times> real) option \<Rightarrow> (nat \<times> real) option" where
  "nearest_loop [] click_x click_y i best = best"
| "nearest_loop (w # ws) click_x click_y i best =
     (let cx = (w_x0 w + w_x1 w) / 2;
          cy = (w_y0 w + w_y1 w) / 2;
          d = hypot (cx - click_x) (cy - click_y)
      in nearest_loop ws click_x click_y (i + 1)
           (case best of
              None \<Rightarrow> Some (i, d)
            | Some (best_i, best_d) \<Rightarrow> if d < best_d then Some (i, d) else best))"

definition nearest_word_index :: "word list \<Rightarrow> real \<Rightarrow> real \<Rightarrow> nat option" where
  "nearest_word_index words_list click_x click_y =
     map_option fst (nearest_loop words_list click_x click_y 0 None)"

text \<open>\<open>min\<close> and \<open>max\<close> of a generator; the callers never pass an empty one.\<close>

definition py_min :: "real list \<Rightarrow> real" where
  "py_min xs = fold min (tl xs) (hd xs)"

definition py_max :: "real list \<Rightarrow> real" where
  "py_max xs = fold max (tl xs) (hd xs)"

definition words_bbox :: "word list \<Rightarrow> rect" where
  "words_bbox ws = (py_min (map w_x0 ws), py_min (map w_y0 ws),
                    py_max (map w_x1 ws), py_max (map w_y1 ws))"

definition words_text :: "word list \<Rightarrow> ustring" where
  "words_text ws = py_join (u '' '') (map w_text ws)"

definition ed_push_undo :: "editor \<Rightarrow> editor" where
  "ed_push_undo e = e\<lparr>ed_undo_stack := ed_undo_stack e @ [paragraphs_by_page e]\<rparr>"

definition on_split_horizontal :: "editor \<Rightarrow> py_error + messagebox option \<times> editor" where
  "on_split_horizontal e =
     (case last_right_click e of
        None \<Rightarrow> Inr (None, e)
      | Some lrc \<Rightarrow>
          if c_page lrc \<noteq> current_page e
          then Inr (Some (ShowWarning ''Split'' ''Split point is on another page.''), e)
          else
            let pi' = c_para_index lrc in
            case paragraphs_by_page e (current_page e) of
              None \<Rightarrow> Inl KeyError
            | Some paras \<Rightarrow>
                if pi' \<ge> length paras then Inr (None, e)
                else
                  let para = paras ! pi';
                      words = p_words para
                  in if words = [] then Inr (None, e)
                     else
                       case nearest_word_index words (c_x lrc) (c_y lrc) of
                         None \<Rightarrow> Inr (None, e)
                       | Some idx_word \<Rightarrow>
                           let e = ed_push_undo e;
                               left_words = take (idx_word + 1) words;
                               right_words = drop (idx_word + 1) words
                           in if right_words = []
                              then Inr (Some (ShowInfo ''Split''
                                     ''Split location produced empty right paragraph.''), e)
                              else
                                let left = \<lparr>p_bbox = words_bbox left_words,
                                            p_text = words_text left_words,
                                            p_words = left_words\<rparr>;
                                    right = \<lparr>p_bbox = words_bbox right_words,
                                             p_text = words_text right_words,
                                             p_words = right_words\<rparr>;
                                    paras = take pi' paras @ drop (pi' + 1) paras;
                                    paras = take pi' paras @ [right] @ drop pi' paras;
                                    paras = take pi' paras @ [left] @ drop pi' paras
                                in Inr (Some (ShowInfo ''Split''
                                          (''P'' @ str_nat_s (pi' + 1) @ '' split horizontally.'')),
                                        e\<lparr>paragraphs_by_page :=
                                             (paragraphs_by_page e)(current_page e \<mapsto> paras),
                                          last_right_click := None\<rparr>))"

text \<open>\<open>for a, b in zip(sel, sel[1:]): if b != a + 1\<close> finds a gap.\<close>

definition adjacent :: "nat list \<Rightarrow> bool" where
  "adjacent sel \<longleftrightarrow> list_all (\<lambda>(a, b). b = a + 1) (zip sel (tl sel))"

text \<open>
  The loop \<open>for idx in reversed(sel)\<close>, carrying the list, \<open>merged_text\<close>, \<open>merged_words\<close>
  and \<open>merged_bbox\<close>; \<open>paras.pop(idx)\<close> raises when the index is out of range.
\<close>

fun merge_loop :: "nat list \<Rightarrow> para list \<times> ustring list \<times> word list \<times> rect
    \<Rightarrow> py_error + para list \<times> ustring list \<times> word list \<times> rect" where
  "merge_loop [] acc = Inr acc"
| "merge_loop (idx # rest) (paras, merged_text, merged_words, merged_bbox) =
     (if idx \<ge> length paras then Inl IndexError
      else let p = paras ! idx
           in merge_loop rest (take idx paras @ drop (idx + 1) paras,
                               p_text p # merged_text,
                               p_words p @ merged_words,
                               bbox_merge merged_bbox (p_bbox p)))"

definition on_merge :: "editor \<Rightarrow> py_error + messagebox \<times> editor" where
  "on_merge e =
     (if card (selected_indices e) < 2
      then Inr (ShowInfo ''Merge'' ''Select 2+ adjacent paragraphs (Ctrl+Click).'', e)
      else
        case paragraphs_by_page e (current_page e) of
          None \<Rightarrow> Inl KeyError
        | Some paras \<Rightarrow>
            let sel = sorted_list_of_set (selected_indices e) in
            if \<not> adjacent sel
            then Inr (ShowWarning ''Merge'' ''Selected must be adjacent.'', e)
            else
              let e = ed_push_undo e;
                  first = hd sel
              in if first \<ge> length paras then Inl IndexError
                 else
                   case merge_loop (rev sel) (paras, [], [], p_bbox (paras ! first)) of
                     Inl err \<Rightarrow> Inl err
                   | Inr (paras, merged_text, merged_words, merged_bbox) \<Rightarrow>
                       let merged = \<lparr>p_bbox = merged_bbox,
                                     p_text = py_join (u [CHR 0x0A]) merged_text,
                                     p_words = merged_words\<rparr>;
                           paras = take first paras @ [merged] @ drop first paras
                       in Inr (ShowInfo ''Merge''
                                 (''Paragraphs merged into P'' @ str_nat_s (first + 1) @ ''.''),
                               e\<lparr>paragraphs_by_page :=
                                    (paragraphs_by_page e)(current_page e \<mapsto> paras),
                                 selected_indices := {first}\<rparr>))"

text \<open>The selection of the two paragraphs a split has just produced at index \<open>pi'\<close>.\<close>

definition select_pair :: "nat \<Rightarrow> editor \<Rightarrow> editor" where
  "select_pair pi' e = e\<lparr>selected_indices := {pi', pi' + 1}\<rparr>"

definition mk_word :: "real \<Rightarrow> real \<Rightarrow> real \<Rightarrow> real \<Rightarrow> string \<Rightarrow> word" where
  "mk_word x0 y0 x1 y1 t = \<lparr>w_x0 = x0, w_y0 = y0, w_x1 = x1, w_y1 = y1, w_text = u t\<rparr>"

definition two_words :: "word list" where
  "two_words = [mk_word 10 10 20 20 ''a'', mk_word 30 10 40 20 ''b'']"

definition loose_para :: para where
  "loose_para = \<lparr>p_bbox = (0, 0, 100, 100), p_text = u ''a b'', p_words = two_words\<rparr>"

definition editor_of :: "para list \<Rightarrow> nat set \<Rightarrow> click option \<Rightarrow> editor" where
  "editor_of ps sel lrc =
     \<lparr>paragraphs_by_page = [0 \<mapsto> ps], current_page = 0, selected_indices = sel,
      ed_undo_stack = [], last_right_click = lrc\<rparr>"

text \<open>The union of a list of rectangles: the least left and top, the greatest right and bottom.\<close>

definition bbox_union :: "rect list \<Rightarrow> rect" where
  "bbox_union bs =
     (Min (set (map (\<lambda>(x0, y0, x1, y1). x0) bs)), Min (set (map (\<lambda>(x0, y0, x1, y1). y0) bs)),
      Max (set (map (\<lambda>(x0, y0, x1, y1). x1) bs)), Max (set (map (\<lambda>(x0, y0, x1, y1). y1) bs)))"

text \<open>A split at the last right click followed at once by the merge of the two paragraphs
  it produced: the paragraphs of the current page afterwards.\<close>

definition split_then_merge :: "editor \<Rightarrow> para list option" where
  "split_then_merge e =
     (case last_right_click e of
        None \<Rightarrow> None
      | Some lrc \<Rightarrow>
         (case on_split_horizontal e of
            Inr (Some (ShowInfo t m), e1) \<Rightarrow>
              (case on_merge (select_pair (c_para_index lrc) e1) of
                 Inr (m2, e2) \<Rightarrow> paragraphs_by_page e2 (current_page e2)
               | Inl err \<Rightarrow> None)
          | _ \<Rightarrow> None))"

definition loose_click :: click where
  "loose_click = \<lparr>c_page = 0, c_para_index = 0, c_x = 15, c_y = 15\<rparr>"

definition three_paras :: "para list" where
  "three_paras =
     [\<lparr>p_bbox = (0, 0, 10, 10), p_text = u ''A'', p_words = [mk_word 0 0 10 10 ''A'']\<rparr>,
      \<lparr>p_bbox = (20, 5, 30, 15), p_text = u ''B'', p_words = [mk_word 20 5 30 15 ''B'']\<rparr>,
      \<lparr>p_bbox = (0, 20, 10, 30), p_text = u ''C'', p_words = [mk_word 0 20 10 30 ''C'']\<rparr>]"

section \<open>Heading inference: theorems\<close>

lemma state_of_regions_simps:
  "doc (state_of_regions rs) = Some [page_by_x0]"
  "page_index (state_of_regions rs) = 0"
  "current_regions (state_of_regions rs) = rs"
  by (simp_all add: state_of_regions_def current_regions_def)

lemma region_avg_size_page_by_x0:
  "region_avg_size page_by_x0 (region_of_size i sz) = sz"
  by (simp add: region_avg_size_def page_by_x0_def region_of_size_def)

lemma infer_headings_run:
  assumes "doc st = Some d" and "page_index st < length d"
    and "current_regions st \<noteq> []"
    and "0 < max_sizes (current_sizes st (d ! page_index st))"
  shows "infer_headings_for_page st
      = Inr (ShowInfo ''Headings'' ''Heading inference completed for current page.'',
             (push_undo st)\<lparr>regions := (regions st)(page_index st \<mapsto>
                map2 (retag (max_sizes (current_sizes st (d ! page_index st))))
                  (current_regions st) (current_sizes st (d ! page_index st)))\<rparr>)"
  using assms
  by (simp add: infer_headings_for_page_def current_sizes_def Let_def push_undo_def)

lemma current_regions_upd:
  "current_regions (st\<lparr>regions := (m)(page_index st \<mapsto> rs)\<rparr>) = rs"
  by (simp add: current_regions_def)

lemma page_index_push_undo: "page_index (push_undo st) = page_index st"
  by (simp add: push_undo_def)

lemma current_regions_run:
  "current_regions ((push_undo st)\<lparr>regions := (m)(page_index st \<mapsto> rs)\<rparr>) = rs"
  by (simp add: current_regions_def push_undo_def)

text \<open>
  C5. Three regions whose average font sizes are 12, 9 and 6: the page maximum is 12 and
  the inferred tags are h1, h3 and p. The ratio 9 / 12 is exactly 0.75, which is not
  greater than 0.75, so the second region falls through to the next threshold and is h3.
\<close>

theorem infer_headings_12_9_6:
  "current_sizes (state_of_regions [region_of_size ''a'' 12, region_of_size ''b'' 9,
       region_of_size ''c'' 6]) page_by_x0 = [12, 9, 6]
   \<and> max_sizes [12, 9, 6] = 12
   \<and> tags_after (state_of_regions [region_of_size ''a'' 12, region_of_size ''b'' 9,
       region_of_size ''c'' 6]) = Some [u ''h1'', u ''h3'', u ''p'']
   \<and> \<not> ((9::real) / 12 > 0.75)
   \<and> new_tag_of 9 12 = ''h3''"
proof -
  let ?rs = "[region_of_size ''a'' 12, region_of_size ''b'' 9, region_of_size ''c'' 6]"
  let ?st = "state_of_regions ?rs"
  have s: "current_sizes ?st page_by_x0 = [12, 9, 6]"
    by (simp add: current_sizes_def state_of_regions_simps region_avg_size_page_by_x0)
  have m: "max_sizes [12, 9, 6] = 12"
    by (simp add: max_sizes_def)
  have t: "map r_tag (map2 (retag 12) ?rs [12, 9, 6]) = [u ''h1'', u ''h3'', u ''p'']"
    by (simp add: retag_def new_tag_of_def Let_def)
  have "infer_headings_for_page ?st
      = Inr (ShowInfo ''Headings'' ''Heading inference completed for current page.'',
             (push_undo ?st)\<lparr>regions := (regions ?st)(page_index ?st \<mapsto>
                map2 (retag 12) ?rs [12, 9, 6])\<rparr>)"
    using infer_headings_run [of ?st "[page_by_x0]"]
    by (simp add: state_of_regions_simps s m)
  then have "tags_after ?st = Some [u ''h1'', u ''h3'', u ''p'']"
    by (simp only: tags_after_def current_regions_run t sum.case prod.case)
  moreover have "\<not> ((9::real) / 12 > 0.75)" by simp
  moreover have "new_tag_of 9 12 = ''h3''" by (simp add: new_tag_of_def)
  ultimately show ?thesis using s m by simp
qed

text \<open>
  C9. With a document open on an existing page, when the page has no region, or when the
  largest average font size of its regions is not positive, inference returns an
  informational message box and the very state it was given: no undo entry is pushed and
  no tag or id is touched.
\<close>

theorem infer_headings_no_data:
  assumes "doc st = Some d" and "page_index st < length d"
    and "current_regions st = []
         \<or> max_sizes (current_sizes st (d ! page_index st)) \<le> 0"
  shows "infer_headings_for_page st
           = Inr (ShowInfo ''Info'' ''No regions on this page to infer headings for.'', st)
         \<or> infer_headings_for_page st
           = Inr (ShowInfo ''Info'' ''Could not detect font sizes on this page.'', st)"
  using assms
  by (auto simp: infer_headings_for_page_def current_sizes_def Let_def)

theorem infer_headings_no_data_witness:
  "infer_headings_for_page (state_of_regions [])
     = Inr (ShowInfo ''Info'' ''No regions on this page to infer headings for.'',
            state_of_regions [])
   \<and> infer_headings_for_page (state_of_regions [region_of_size ''a'' 0])
     = Inr (ShowInfo ''Info'' ''Could not detect font sizes on this page.'',
            state_of_regions [region_of_size ''a'' 0])"
proof -
  have d: "doc (state_of_regions rs) = Some [page_by_x0]"
    and p: "page_index (state_of_regions rs) < length [page_by_x0]" for rs
    by (simp_all add: state_of_regions_simps)
  have e: "current_regions (state_of_regions []) = []
           \<or> max_sizes (current_sizes (state_of_regions [])
                ([page_by_x0] ! page_index (state_of_regions []))) \<le> 0"
    by (simp add: state_of_regions_simps)
  have z: "current_regions (state_of_regions [region_of_size ''a'' 0]) = []
           \<or> max_sizes (current_sizes (state_of_regions [region_of_size ''a'' 0])
                ([page_by_x0] ! page_index (state_of_regions [region_of_size ''a'' 0]))) \<le> 0"
    by (simp add: current_sizes_def state_of_regions_simps
          region_avg_size_page_by_x0 max_sizes_def)
  have 1: "infer_headings_for_page (state_of_regions [])
     = Inr (ShowInfo ''Info'' ''No regions on this page to infer headings for.'',
            state_of_regions [])"
    using infer_headings_no_data [OF d p e]
    by (simp add: infer_headings_for_page_def state_of_regions_simps)
  have 2: "infer_headings_for_page (state_of_regions [region_of_size ''a'' 0])
     = Inr (ShowInfo ''Info'' ''Could not detect font sizes on this page.'',
            state_of_regions [region_of_size ''a'' 0])"
    using infer_headings_no_data [OF d p z]
    by (simp add: infer_headings_for_page_def state_of_regions_simps Let_def
          region_avg_size_page_by_x0 max_sizes_def)
  from 1 2 show ?thesis by simp
qed

lemma retag_fields:
  "r_rect (retag m r a) = r_rect r" "r_text (retag m r a) = r_text r"
  "r_tag (retag m r a) = u (new_tag_of a m)"
  "r_id (retag m r a) = u (new_tag_of a m) @ u ''_'' @ r_id r"
  by (simp_all add: retag_def Let_def)

text \<open>
  C10. When inference runs (a document open on an existing page, at least one region,
  positive maximum), it returns the completion message and a state in which the current
  page has the same number of regions in the same order; each keeps its rectangle and
  text, gets the tag of its size ratio, and its new id is the new tag, an underscore and
  the old id. The other pages, the document, the page index and the selection are as
  before, and the previous regions are pushed on the undo stack.
\<close>

theorem infer_headings_frame:
  assumes "doc st = Some d" and "page_index st < length d"
    and "current_regions st \<noteq> []"
    and "0 < max_sizes (current_sizes st (d ! page_index st))"
  shows "\<exists>st'. infer_headings_for_page st
            = Inr (ShowInfo ''Headings'' ''Heading inference completed for current page.'', st')
          \<and> length (current_regions st') = length (current_regions st)
          \<and> (\<forall>i < length (current_regions st).
                r_rect (current_regions st' ! i) = r_rect (current_regions st ! i)
              \<and> r_text (current_regions st' ! i) = r_text (current_regions st ! i)
              \<and> r_tag (current_regions st' ! i)
                  = u (new_tag_of (current_sizes st (d ! page_index st) ! i)
                         (max_sizes (current_sizes st (d ! page_index st))))
              \<and> r_id (current_regions st' ! i)
                  = r_tag (current_regions st' ! i) @ u ''_'' @ r_id (current_regions st ! i))
          \<and> (\<forall>p. p \<noteq> page_index st \<longrightarrow> regions st' p = regions st p)
          \<and> doc st' = doc st \<and> page_index st' = page_index st
          \<and> selected_region st' = selected_region st
          \<and> undo_stack st' = undo_stack st @ [regions st]"
proof -
  have len: "length (current_sizes st pg) = length (current_regions st)" for pg
    by (simp add: current_sizes_def)
  show ?thesis
    unfolding infer_headings_run [OF assms]
    apply (rule exI, rule conjI, rule refl)
    apply (simp only: current_regions_run)
    apply (simp add: len retag_fields)
    apply (simp add: push_undo_def)
    done
qed

theorem infer_headings_frame_witness:
  "\<exists>st'. infer_headings_for_page (state_of_regions [region_of_size ''a'' 12, region_of_size ''b'' 9])
            = Inr (ShowInfo ''Headings'' ''Heading inference completed for current page.'', st')
        \<and> length (current_regions st') = 2
        \<and> r_id (current_regions st' ! 1) = u ''h3_b''
        \<and> r_rect (current_regions st' ! 1) = (9, 0, 100, 10)"
proof -
  let ?st = "state_of_regions [region_of_size ''a'' 12, region_of_size ''b'' 9]"
  have d: "doc ?st = Some [page_by_x0]" and p: "page_index ?st < length [page_by_x0]"
    by (simp_all add: state_of_regions_simps)
  have c: "current_regions ?st = [region_of_size ''a'' 12, region_of_size ''b'' 9]"
    by (simp add: state_of_regions_simps)
  have s: "current_sizes ?st ([page_by_x0] ! page_index ?st) = [12, 9]"
    by (simp add: current_sizes_def state_of_regions_simps region_avg_size_page_by_x0)
  have n: "current_regions ?st \<noteq> []" by (simp add: c)
  have m: "0 < max_sizes (current_sizes ?st ([page_by_x0] ! page_index ?st))"
    unfolding s by (simp add: max_sizes_def)
  have t: "new_tag_of 9 (max_sizes [12, 9]) = ''h3''"
    by (simp add: max_sizes_def new_tag_of_def)
  from infer_headings_frame [OF d p n m] obtain st' where
    r: "infer_headings_for_page ?st
          = Inr (ShowInfo ''Headings'' ''Heading inference completed for current page.'', st')"
    and l: "length (current_regions st') = length (current_regions ?st)"
    and a: "\<forall>i < length (current_regions ?st).
                r_rect (current_regions st' ! i) = r_rect (current_regions ?st ! i)
              \<and> r_text (current_regions st' ! i) = r_text (current_regions ?st ! i)
              \<and> r_tag (current_regions st' ! i)
                  = u (new_tag_of (current_sizes ?st ([page_by_x0] ! page_index ?st) ! i)
                         (max_sizes (current_sizes ?st ([page_by_x0] ! page_index ?st))))
              \<and> r_id (current_regions st' ! i)
                  = r_tag (current_regions st' ! i) @ u ''_'' @ r_id (current_regions ?st ! i)"
    by blast
  have l2: "length (current_regions st') = 2"
    using l by (simp add: c)
  have "(1::nat) < length (current_regions ?st)" by (simp add: c)
  with a have b: "r_rect (current_regions st' ! 1) = r_rect (current_regions ?st ! 1)"
     "r_tag (current_regions st' ! 1)
        = u (new_tag_of (current_sizes ?st ([page_by_x0] ! page_index ?st) ! 1)
               (max_sizes (current_sizes ?st ([page_by_x0] ! page_index ?st))))"
     "r_id (current_regions st' ! 1)
        = r_tag (current_regions st' ! 1) @ u ''_'' @ r_id (current_regions ?st ! 1)"
    by blast+
  have b1: "r_rect (current_regions st' ! 1) = (9, 0, 100, 10)"
    using b(1) unfolding c by (simp add: region_of_size_def)
  have b2: "r_tag (current_regions st' ! 1) = u ''h3''"
    using b(2) by (simp add: s t)
  have b3: "r_id (current_regions st' ! 1) = u ''h3_b''"
    using b(3) unfolding c b2 by (simp add: region_of_size_def u_def)
  from r l2 b1 b3 show ?thesis by blast
qed


section \<open>Paragraph editor: split and merge\<close>

lemma py_min_Min: "xs \<noteq> [] \<Longrightarrow> py_min xs = Min (set xs)"
proof (cases xs)
  case (Cons a list)
  then show ?thesis using Min.set_eq_fold [of a list] by (simp add: py_min_def)
qed simp

lemma py_max_Max: "xs \<noteq> [] \<Longrightarrow> py_max xs = Max (set xs)"
proof (cases xs)
  case (Cons a list)
  then show ?thesis using Max.set_eq_fold [of a list] by (simp add: py_max_def)
qed simp

lemma py_min_append:
  "xs \<noteq> [] \<Longrightarrow> ys \<noteq> [] \<Longrightarrow> py_min (xs @ ys) = min (py_min xs) (py_min ys)"
  by (simp add: py_min_Min Min_Un)

lemma py_max_append:
  "xs \<noteq> [] \<Longrightarrow> ys \<noteq> [] \<Longrightarrow> py_max (xs @ ys) = max (py_max xs) (py_max ys)"
  by (simp add: py_max_Max Max_Un)

lemma words_bbox_append:
  "xs \<noteq> [] \<Longrightarrow> ys \<noteq> [] \<Longrightarrow>
   bbox_merge (words_bbox xs) (words_bbox ys) = words_bbox (xs @ ys)"
  by (simp add: words_bbox_def bbox_merge_def py_min_append py_max_append)

lemma bbox_merge_absorb: "bbox_merge (bbox_merge a b) a = bbox_merge a b"
  by (cases a; cases b) (simp add: bbox_merge_def)

lemma adjacent_Cons2: "adjacent (a # b # xs) \<longleftrightarrow> b = a + 1 \<and> adjacent (b # xs)"
  by (simp add: adjacent_def)

lemma adjacent_upt:
  "sel \<noteq> [] \<Longrightarrow> adjacent sel \<Longrightarrow> sel = [hd sel..<hd sel + length sel]"
proof (induction sel)
  case Nil
  then show ?case by simp
next
  case (Cons a sel)
  show ?case
  proof (cases sel)
    case Nil
    then show ?thesis by simp
  next
    case (Cons b xs)
    with Cons.prems have b: "b = a + 1" and adj: "adjacent sel"
      by (auto simp: adjacent_Cons2)
    from Cons.IH adj Cons have "sel = [b..<b + length sel]" by simp
    then have 1: "a # sel = a # [Suc a..<Suc a + length sel]" using b by simp
    have 2: "[a..<a + length (a # sel)] = a # [Suc a..<a + length (a # sel)]"
      by (rule upt_conv_Cons) simp
    have ?thesis using 1 2 by simp
    then have "a # sel = [hd (a # sel)..<hd (a # sel) + length (a # sel)]" .
    then show ?thesis .
  qed
qed

lemma merge_loop_upt:
  "f + n \<le> length paras \<Longrightarrow>
   merge_loop (rev [f..<f + n]) (paras, mt, mw, mb)
     = Inr (take f paras @ drop (f + n) paras,
            map p_text (take n (drop f paras)) @ mt,
            concat (map p_words (take n (drop f paras))) @ mw,
            fold (\<lambda>p b. bbox_merge b (p_bbox p)) (rev (take n (drop f paras))) mb)"
proof (induction n arbitrary: paras mt mw mb)
  case 0
  then show ?case by simp
next
  case (Suc n)
  let ?ps = "take (f + n) paras @ drop (f + n + 1) paras"
  have lt: "f + n < length paras" using Suc.prems by simp
  have len: "f + n \<le> length ?ps" using Suc.prems by simp
  have t1: "take f ?ps = take f paras"
    using lt by (simp add: min_def)
  have t2: "drop (f + n) ?ps = drop (f + Suc n) paras"
    using lt by simp
  have t3: "take n (drop f ?ps) = take n (drop f paras)"
    using lt by (simp add: take_drop)
  have t4: "take (Suc n) (drop f paras) = take n (drop f paras) @ [paras ! (f + n)]"
    using lt by (simp add: take_Suc_conv_app_nth)
  have "merge_loop (rev [f..<f + Suc n]) (paras, mt, mw, mb)
      = merge_loop (rev [f..<f + n]) (?ps, p_text (paras ! (f + n)) # mt,
          p_words (paras ! (f + n)) @ mw, bbox_merge mb (p_bbox (paras ! (f + n))))"
    using lt by (simp add: Let_def)
  also have "\<dots> = Inr (take f ?ps @ drop (f + n) ?ps,
            map p_text (take n (drop f ?ps)) @ p_text (paras ! (f + n)) # mt,
            concat (map p_words (take n (drop f ?ps))) @ p_words (paras ! (f + n)) @ mw,
            fold (\<lambda>p b. bbox_merge b (p_bbox p)) (rev (take n (drop f ?ps)))
              (bbox_merge mb (p_bbox (paras ! (f + n)))))"
    by (rule Suc.IH [OF len])
  finally show ?case
    unfolding t1 t2 t3 t4 by simp
qed

lemma Min_insert_min:
  "finite A \<Longrightarrow> Min (insert (min a c) A) = min (a::real) (Min (insert c A))"
  by (cases "A = {}") (simp_all add: min.assoc)

lemma Max_insert_max:
  "finite A \<Longrightarrow> Max (insert (max a c) A) = max (a::real) (Max (insert c A))"
  by (cases "A = {}") (simp_all add: max.assoc)

lemma fold_bbox_merge:
  "fold (\<lambda>p b. bbox_merge b (p_bbox p)) ps b0 = bbox_union (b0 # map p_bbox ps)"
proof (induction ps arbitrary: b0)
  case Nil
  then show ?case by (cases b0) (simp add: bbox_union_def)
next
  case (Cons p ps)
  obtain a0 a1 a2 a3 where b0: "b0 = (a0, a1, a2, a3)" by (cases b0) auto
  obtain c0 c1 c2 c3 where p: "p_bbox p = (c0, c1, c2, c3)" by (cases "p_bbox p") auto
  show ?case
    unfolding fold_simps Cons.IH
    by (simp add: bbox_union_def bbox_merge_def b0 p Min_insert_min Max_insert_max)
qed

lemma bbox_union_dup:
  "b \<in> set bs \<Longrightarrow> bbox_union (b # bs) = bbox_union bs"
  by (simp add: bbox_union_def insert_absorb [OF imageI])


lemma sorted_list_of_set_facts:
  assumes "2 \<le> card S"
  shows "finite S" and "sorted_list_of_set S \<noteq> []"
    and "set (sorted_list_of_set S) = S" and "length (sorted_list_of_set S) = card S"
proof -
  show f: "finite S" using assms by (cases "finite S") auto
  then show "set (sorted_list_of_set S) = S" by simp
  show "length (sorted_list_of_set S) = card S" by simp
  show "sorted_list_of_set S \<noteq> []"
    using assms f by (auto simp: sorted_list_of_set_eq_Nil_iff)
qed

lemma nth_upt_sel:
  "f + n \<le> length paras \<Longrightarrow> map (\<lambda>i. g (paras ! i)) [f..<f + n] = map g (take n (drop f paras))"
  by (rule nth_equalityI) auto

lemma on_merge_adjacent:
  assumes pp: "paragraphs_by_page e (current_page e) = Some paras"
    and c: "2 \<le> card (selected_indices e)"
    and r: "\<forall>i \<in> selected_indices e. i < length paras"
    and adj: "adjacent (sorted_list_of_set (selected_indices e))"
  shows "on_merge e =
     Inr (ShowInfo ''Merge''
            (''Paragraphs merged into P''
               @ str_nat_s (hd (sorted_list_of_set (selected_indices e)) + 1) @ ''.''),
          (ed_push_undo e)\<lparr>paragraphs_by_page := (paragraphs_by_page e)(current_page e \<mapsto>
             take (hd (sorted_list_of_set (selected_indices e))) paras
             @ [\<lparr>p_bbox = bbox_union (map (\<lambda>i. p_bbox (paras ! i))
                             (sorted_list_of_set (selected_indices e))),
                 p_text = py_join (u [CHR 0x0A]) (map (\<lambda>i. p_text (paras ! i))
                             (sorted_list_of_set (selected_indices e))),
                 p_words = concat (map (\<lambda>i. p_words (paras ! i))
                             (sorted_list_of_set (selected_indices e)))\<rparr>]
             @ drop (hd (sorted_list_of_set (selected_indices e))
                     + length (sorted_list_of_set (selected_indices e))) paras),
            selected_indices := {hd (sorted_list_of_set (selected_indices e))}\<rparr>)"
proof -
  let ?sel = "sorted_list_of_set (selected_indices e)"
  let ?f = "hd ?sel"
  let ?n = "length ?sel"
  note facts = sorted_list_of_set_facts [OF c]
  have upt: "?sel = [?f..<?f + ?n]"
    using adjacent_upt [OF facts(2) adj] .
  have n2: "2 \<le> ?n" using c facts(4) by simp
  have "?f + ?n - 1 \<in> set [?f..<?f + ?n]" using n2 by simp
  then have "?f + ?n - 1 \<in> selected_indices e" using upt facts(3) by metis
  then have bound: "?f + ?n \<le> length paras" using r n2 by fastforce
  have flt: "?f < length paras" using bound n2 by simp
  have fin: "paras ! ?f \<in> set (take ?n (drop ?f paras))"
    using bound n2 by (simp add: in_set_conv_nth) (rule exI [of _ 0], simp)
  have loop: "merge_loop (rev ?sel) (paras, [], [], p_bbox (paras ! ?f))
     = Inr (take ?f paras @ drop (?f + ?n) paras,
            map p_text (take ?n (drop ?f paras)),
            concat (map p_words (take ?n (drop ?f paras))),
            bbox_union (map p_bbox (take ?n (drop ?f paras))))"
  proof -
    have "merge_loop (rev [?f..<?f + ?n]) (paras, [], [], p_bbox (paras ! ?f))
       = Inr (take ?f paras @ drop (?f + ?n) paras,
            map p_text (take ?n (drop ?f paras)) @ [],
            concat (map p_words (take ?n (drop ?f paras))) @ [],
            fold (\<lambda>p b. bbox_merge b (p_bbox p)) (rev (take ?n (drop ?f paras)))
              (p_bbox (paras ! ?f)))"
      by (rule merge_loop_upt [OF bound])
    moreover have "fold (\<lambda>p b. bbox_merge b (p_bbox p)) (rev (take ?n (drop ?f paras)))
              (p_bbox (paras ! ?f)) = bbox_union (map p_bbox (take ?n (drop ?f paras)))"
    proof -
      have "bbox_union (p_bbox (paras ! ?f) # map p_bbox (rev (take ?n (drop ?f paras))))
          = bbox_union (map p_bbox (rev (take ?n (drop ?f paras))))"
        by (rule bbox_union_dup) (use fin in simp)
      also have "\<dots> = bbox_union (map p_bbox (take ?n (drop ?f paras)))"
        by (simp add: bbox_union_def)
      finally show ?thesis by (simp only: fold_bbox_merge)
    qed
    ultimately show ?thesis using upt by simp
  qed
  have sel_map: "map (\<lambda>i. g (paras ! i)) ?sel = map g (take ?n (drop ?f paras))" for g :: "para \<Rightarrow> 'b"
    using nth_upt_sel [OF bound, of g] upt by simp
  have tk: "take ?f (take ?f paras @ drop (?f + ?n) paras) = take ?f paras"
    using flt by simp
  have dr: "drop ?f (take ?f paras @ drop (?f + ?n) paras) = drop (?f + ?n) paras"
    using flt by simp
  have c2: "\<not> card (selected_indices e) < 2" using c by simp
  have nf: "\<not> length paras \<le> ?f" using flt by simp
  show ?thesis
    unfolding on_merge_def
    apply (simp only: c2 if_False pp option.case adj not_not Let_def nf loop sum.case prod.case
          tk dr sel_map)
    apply (simp add: ed_push_undo_def)
    done
qed


lemma on_split_horizontal_run:
  assumes pp: "paragraphs_by_page e (current_page e) = Some paras"
    and lrc: "last_right_click e = Some lrc"
    and pg: "c_page lrc = current_page e"
    and lt: "c_para_index lrc < length paras"
    and near: "nearest_word_index (p_words (paras ! c_para_index lrc)) (c_x lrc) (c_y lrc) = Some k"
    and succ: "Suc k < length (p_words (paras ! c_para_index lrc))"
  shows "on_split_horizontal e =
     Inr (Some (ShowInfo ''Split''
            (''P'' @ str_nat_s (c_para_index lrc + 1) @ '' split horizontally.'')),
          (ed_push_undo e)\<lparr>paragraphs_by_page := (paragraphs_by_page e)(current_page e \<mapsto>
             take (c_para_index lrc) paras
             @ [\<lparr>p_bbox = words_bbox (take (Suc k) (p_words (paras ! c_para_index lrc))),
                 p_text = words_text (take (Suc k) (p_words (paras ! c_para_index lrc))),
                 p_words = take (Suc k) (p_words (paras ! c_para_index lrc))\<rparr>,
                \<lparr>p_bbox = words_bbox (drop (Suc k) (p_words (paras ! c_para_index lrc))),
                 p_text = words_text (drop (Suc k) (p_words (paras ! c_para_index lrc))),
                 p_words = drop (Suc k) (p_words (paras ! c_para_index lrc))\<rparr>]
             @ drop (c_para_index lrc + 1) paras),
            last_right_click := None\<rparr>)"
proof -
  let ?i = "c_para_index lrc"
  have ne: "p_words (paras ! ?i) \<noteq> []" using succ by auto
  have nl: "\<not> length paras \<le> ?i" using lt by simp
  have dn: "\<not> length (p_words (paras ! ?i)) \<le> Suc k" using succ by simp
  have t1: "take ?i (take ?i paras @ drop (Suc ?i) paras) = take ?i paras"
    using lt by simp
  have d1: "drop ?i (take ?i paras @ drop (Suc ?i) paras) = drop (Suc ?i) paras"
    using lt by simp
  have t2: "take ?i (take ?i paras @ x # drop (Suc ?i) paras) = take ?i paras" for x
    using lt by simp
  have d2: "drop ?i (take ?i paras @ x # drop (Suc ?i) paras) = x # drop (Suc ?i) paras" for x
    using lt by simp
  have m: "min (length paras) ?i = ?i" using lt by simp
  show ?thesis
    unfolding on_split_horizontal_def
    by (simp add: lrc pg pp nl ne near dn Let_def m ed_push_undo_def)
qed

lemma bbox_union_pair: "bbox_union [a, b] = bbox_merge a b"
  by (cases a; cases b) (simp add: bbox_union_def bbox_merge_def min.commute max.commute)

lemma split_then_merge_run:
  assumes pp: "paragraphs_by_page e (current_page e) = Some paras"
    and lrc: "last_right_click e = Some lrc"
    and pg: "c_page lrc = current_page e"
    and lt: "c_para_index lrc < length paras"
    and near: "nearest_word_index (p_words (paras ! c_para_index lrc)) (c_x lrc) (c_y lrc) = Some k"
    and succ: "Suc k < length (p_words (paras ! c_para_index lrc))"
  shows "split_then_merge e = Some (paras[c_para_index lrc :=
           \<lparr>p_bbox = words_bbox (p_words (paras ! c_para_index lrc)),
            p_text = words_text (take (Suc k) (p_words (paras ! c_para_index lrc)))
                     @ u [CHR 0x0A]
                     @ words_text (drop (Suc k) (p_words (paras ! c_para_index lrc))),
            p_words = p_words (paras ! c_para_index lrc)\<rparr>])"
proof -
  let ?i = "c_para_index lrc"
  let ?ws = "p_words (paras ! ?i)"
  let ?L = "\<lparr>p_bbox = words_bbox (take (Suc k) ?ws), p_text = words_text (take (Suc k) ?ws),
             p_words = take (Suc k) ?ws\<rparr>"
  let ?R = "\<lparr>p_bbox = words_bbox (drop (Suc k) ?ws), p_text = words_text (drop (Suc k) ?ws),
             p_words = drop (Suc k) ?ws\<rparr>"
  let ?ps = "take ?i paras @ [?L, ?R] @ drop (?i + 1) paras"
  let ?e1 = "(ed_push_undo e)\<lparr>paragraphs_by_page := (paragraphs_by_page e)(current_page e \<mapsto> ?ps),
               last_right_click := None\<rparr>"
  let ?e2 = "select_pair ?i ?e1"
  have split: "on_split_horizontal e =
     Inr (Some (ShowInfo ''Split'' (''P'' @ str_nat_s (?i + 1) @ '' split horizontally.'')), ?e1)"
    using on_split_horizontal_run [OF assms] by simp
  have sel: "sorted_list_of_set (selected_indices ?e2) = [?i, Suc ?i]"
    by (simp add: select_pair_def)
  have pp2: "paragraphs_by_page ?e2 (current_page ?e2) = Some ?ps"
    by (simp add: select_pair_def ed_push_undo_def)
  have c2: "2 \<le> card (selected_indices ?e2)"
    by (simp add: select_pair_def)
  have r2: "\<forall>j \<in> selected_indices ?e2. j < length ?ps"
    using lt by (auto simp: select_pair_def)
  have a2: "adjacent (sorted_list_of_set (selected_indices ?e2))"
    unfolding sel by (simp add: adjacent_def)
  have n0: "?ps ! ?i = ?L" using lt by (simp add: nth_append)
  have n1: "?ps ! Suc ?i = ?R" using lt by (simp add: nth_append)
  have tk: "take ?i ?ps = take ?i paras" using lt by simp
  have dr: "drop (?i + 2) ?ps = drop (Suc ?i) paras" using lt by (simp add: min_absorb2)
  have ne1: "take (Suc k) ?ws \<noteq> []" using succ by auto
  have ne2: "drop (Suc k) ?ws \<noteq> []" using succ by auto
  have bb: "bbox_union [words_bbox (take (Suc k) ?ws), words_bbox (drop (Suc k) ?ws)]
      = words_bbox ?ws"
    unfolding bbox_union_pair words_bbox_append [OF ne1 ne2] by simp
  have merge: "\<exists>m e3. on_merge ?e2 = Inr (m, e3)
      \<and> paragraphs_by_page e3 (current_page e3) = Some (take ?i paras
           @ [\<lparr>p_bbox = words_bbox ?ws,
                p_text = words_text (take (Suc k) ?ws) @ u [CHR 0x0A] @ words_text (drop (Suc k) ?ws),
                p_words = ?ws\<rparr>] @ drop (Suc ?i) paras)"
    unfolding on_merge_adjacent [OF pp2 c2 r2 a2] sel
    apply (intro exI conjI, rule refl)
    apply (simp only: list.map n0 n1 para.simps bb tk list.sel)
    using lt apply (simp add: select_pair_def ed_push_undo_def min_absorb2)
    done
  have upd: "paras[?i := x] = take ?i paras @ [x] @ drop (Suc ?i) paras" for x
    using lt by (simp add: upd_conv_take_nth_drop)
  from merge obtain m e3 where m: "on_merge ?e2 = Inr (m, e3)"
    and p3: "paragraphs_by_page e3 (current_page e3) = Some (take ?i paras
           @ [\<lparr>p_bbox = words_bbox ?ws,
                p_text = words_text (take (Suc k) ?ws) @ u [CHR 0x0A] @ words_text (drop (Suc k) ?ws),
                p_words = ?ws\<rparr>] @ drop (Suc ?i) paras)"
    by blast
  show ?thesis
    unfolding split_then_merge_def
    by (simp only: lrc option.case split sum.case prod.case messagebox.case m p3 upd)
qed


lemma nearest_two_words: "nearest_word_index two_words 15 15 = Some 0"
  by (simp add: nearest_word_index_def two_words_def mk_word_def hypot_def)

lemma loose_editor_simps:
  "paragraphs_by_page (editor_of ps sel c) (current_page (editor_of ps sel c)) = Some ps"
  "paragraphs_by_page (editor_of ps sel c) 0 = Some ps"
  "last_right_click (editor_of ps sel c) = c"
  "current_page (editor_of ps sel c) = 0"
  "selected_indices (editor_of ps sel c) = sel"
  by (simp_all add: editor_of_def)

lemma loose_split_then_merge:
  "split_then_merge (editor_of [loose_para] {} (Some loose_click))
     = Some [\<lparr>p_bbox = (10, 10, 40, 20), p_text = u ''a'' @ u [CHR 0x0A] @ u ''b'',
              p_words = two_words\<rparr>]"
proof -
  let ?e = "editor_of [loose_para] {} (Some loose_click)"
  have 1: "paragraphs_by_page ?e (current_page ?e) = Some [loose_para]"
    and 2: "last_right_click ?e = Some loose_click"
    and 3: "c_page loose_click = current_page ?e"
    and 4: "c_para_index loose_click < length [loose_para]"
    by (simp_all add: loose_editor_simps loose_click_def)
  have w: "p_words ([loose_para] ! c_para_index loose_click) = two_words"
    by (simp add: loose_click_def loose_para_def)
  have 5: "nearest_word_index (p_words ([loose_para] ! c_para_index loose_click))
             (c_x loose_click) (c_y loose_click) = Some 0"
    unfolding w using nearest_two_words by (simp add: loose_click_def)
  have 6: "Suc 0 < length (p_words ([loose_para] ! c_para_index loose_click))"
    unfolding w by (simp add: two_words_def)
  have b: "words_bbox two_words = (10, 10, 40, 20)"
    by (simp add: words_bbox_def two_words_def mk_word_def py_min_def py_max_def)
  have t: "words_text (take (Suc 0) two_words) = u ''a''"
      "words_text (drop (Suc 0) two_words) = u ''b''"
    by (simp_all add: words_text_def two_words_def mk_word_def)
  show ?thesis
    unfolding split_then_merge_run [OF 1 2 3 4 5 6] w b t
    by (simp add: loose_click_def)
qed

text \<open>
  C7, as stated, fails: the paragraph \<open>loose_para\<close> has the bounding box (0, 0, 100, 100)
  around two words that span (10, 10) to (40, 20). Splitting it at the click (15, 15) and
  merging the two halves at once gives a paragraph with the same words whose bounding box
  is (10, 10, 40, 20), not the original one.
\<close>

theorem split_then_merge_bbox_counterexample:
  "split_then_merge (editor_of [loose_para] {} (Some loose_click))
     = Some [\<lparr>p_bbox = (10, 10, 40, 20), p_text = u ''a'' @ u [CHR 0x0A] @ u ''b'',
              p_words = two_words\<rparr>]
   \<and> p_bbox loose_para = (0, 0, 100, 100)
   \<and> p_words loose_para = two_words"
  using loose_split_then_merge by (simp add: loose_para_def)

text \<open>
  C7, amended. For a paragraph of the current page whose nearest word \<open>k\<close> to the click is
  not its last word (so both sides of the split are non-empty), a split followed at once
  by the merge of the two halves puts one paragraph in the place of the original: its
  word list is the original word list (so the multiset of words is unchanged), and its
  bounding box is the tight bounding box of those words. It equals the original bounding
  box whenever that one was tight.
\<close>

theorem split_then_merge_roundtrip:
  assumes "paragraphs_by_page e (current_page e) = Some paras"
    and "last_right_click e = Some lrc"
    and "c_page lrc = current_page e"
    and "c_para_index lrc < length paras"
    and "nearest_word_index (p_words (paras ! c_para_index lrc)) (c_x lrc) (c_y lrc) = Some k"
    and "Suc k < length (p_words (paras ! c_para_index lrc))"
  shows "\<exists>merged. split_then_merge e = Some (paras[c_para_index lrc := merged])
      \<and> p_words merged = p_words (paras ! c_para_index lrc)
      \<and> mset (p_words merged) = mset (p_words (paras ! c_para_index lrc))
      \<and> p_bbox merged = words_bbox (p_words (paras ! c_para_index lrc))
      \<and> (p_bbox (paras ! c_para_index lrc) = words_bbox (p_words (paras ! c_para_index lrc))
           \<longrightarrow> p_bbox merged = p_bbox (paras ! c_para_index lrc))"
  unfolding split_then_merge_run [OF assms]
  by (intro exI conjI, rule refl) simp_all

theorem split_then_merge_roundtrip_witness:
  "\<exists>merged. split_then_merge (editor_of [loose_para] {} (Some loose_click)) = Some [merged]
      \<and> p_words merged = two_words
      \<and> p_bbox merged = (10, 10, 40, 20)"
proof -
  let ?e = "editor_of [loose_para] {} (Some loose_click)"
  have 1: "paragraphs_by_page ?e (current_page ?e) = Some [loose_para]"
    and 2: "last_right_click ?e = Some loose_click"
    and 3: "c_page loose_click = current_page ?e"
    and 4: "c_para_index loose_click < length [loose_para]"
    by (simp_all add: loose_editor_simps loose_click_def)
  have w: "p_words ([loose_para] ! c_para_index loose_click) = two_words"
    by (simp add: loose_click_def loose_para_def)
  have 5: "nearest_word_index (p_words ([loose_para] ! c_para_index loose_click))
             (c_x loose_click) (c_y loose_click) = Some 0"
    unfolding w using nearest_two_words by (simp add: loose_click_def)
  have 6: "Suc 0 < length (p_words ([loose_para] ! c_para_index loose_click))"
    unfolding w by (simp add: two_words_def)
  have b: "words_bbox two_words = (10, 10, 40, 20)"
    by (simp add: words_bbox_def two_words_def mk_word_def py_min_def py_max_def)
  from split_then_merge_roundtrip [OF 1 2 3 4 5 6] obtain merged where
    "split_then_merge ?e = Some ([loose_para][c_para_index loose_click := merged])"
    "p_words merged = p_words ([loose_para] ! c_para_index loose_click)"
    "p_bbox merged = words_bbox (p_words ([loose_para] ! c_para_index loose_click))"
    by blast
  then have "split_then_merge ?e = Some [merged] \<and> p_words merged = two_words
      \<and> p_bbox merged = (10, 10, 40, 20)"
    unfolding w b by (simp add: loose_click_def)
  then show ?thesis by blast
qed

text \<open>
  C8. With at least two selected indices, all of them indices of paragraphs of the current
  page: when the sorted selection is contiguous (it is then the interval from its first
  index), merge replaces the selected paragraphs by one paragraph at the first index whose
  text is their texts joined by a line break in index order, whose rectangle is the union
  of their rectangles and whose word list is the concatenation of their word lists in
  index order; the previous list is pushed on the undo stack and the selection becomes the
  first index. When the sorted selection is not contiguous, merge answers with the warning
  that the selection must be adjacent and returns the editor unchanged.
\<close>

theorem on_merge_spec:
  assumes "paragraphs_by_page e (current_page e) = Some paras"
    and "2 \<le> card (selected_indices e)"
    and "\<forall>i \<in> selected_indices e. i < length paras"
  shows "(adjacent (sorted_list_of_set (selected_indices e)) \<longrightarrow>
       sorted_list_of_set (selected_indices e)
         = [hd (sorted_list_of_set (selected_indices e))
            ..<hd (sorted_list_of_set (selected_indices e))
               + length (sorted_list_of_set (selected_indices e))]
     \<and> on_merge e =
       Inr (ShowInfo ''Merge''
            (''Paragraphs merged into P''
               @ str_nat_s (hd (sorted_list_of_set (selected_indices e)) + 1) @ ''.''),
          (ed_push_undo e)\<lparr>paragraphs_by_page := (paragraphs_by_page e)(current_page e \<mapsto>
             take (hd (sorted_list_of_set (selected_indices e))) paras
             @ [\<lparr>p_bbox = bbox_union (map (\<lambda>i. p_bbox (paras ! i))
                             (sorted_list_of_set (selected_indices e))),
                 p_text = py_join (u [CHR 0x0A]) (map (\<lambda>i. p_text (paras ! i))
                             (sorted_list_of_set (selected_indices e))),
                 p_words = concat (map (\<lambda>i. p_words (paras ! i))
                             (sorted_list_of_set (selected_indices e)))\<rparr>]
             @ drop (hd (sorted_list_of_set (selected_indices e))
                     + length (sorted_list_of_set (selected_indices e))) paras),
            selected_indices := {hd (sorted_list_of_set (selected_indices e))}\<rparr>))
   \<and> (\<not> adjacent (sorted_list_of_set (selected_indices e)) \<longrightarrow>
       on_merge e = Inr (ShowWarning ''Merge'' ''Selected must be adjacent.'', e))"
proof (intro conjI impI)
  assume a: "adjacent (sorted_list_of_set (selected_indices e))"
  show "sorted_list_of_set (selected_indices e)
         = [hd (sorted_list_of_set (selected_indices e))
            ..<hd (sorted_list_of_set (selected_indices e))
               + length (sorted_list_of_set (selected_indices e))]"
    using adjacent_upt [OF sorted_list_of_set_facts(2) [OF assms(2)] a] .
  show "on_merge e =
       Inr (ShowInfo ''Merge''
            (''Paragraphs merged into P''
               @ str_nat_s (hd (sorted_list_of_set (selected_indices e)) + 1) @ ''.''),
          (ed_push_undo e)\<lparr>paragraphs_by_page := (paragraphs_by_page e)(current_page e \<mapsto>
             take (hd (sorted_list_of_set (selected_indices e))) paras
             @ [\<lparr>p_bbox = bbox_union (map (\<lambda>i. p_bbox (paras ! i))
                             (sorted_list_of_set (selected_indices e))),
                 p_text = py_join (u [CHR 0x0A]) (map (\<lambda>i. p_text (paras ! i))
                             (sorted_list_of_set (selected_indices e))),
                 p_words = concat (map (\<lambda>i. p_words (paras ! i))
                             (sorted_list_of_set (selected_indices e)))\<rparr>]
             @ drop (hd (sorted_list_of_set (selected_indices e))
                     + length (sorted_list_of_set (selected_indices e))) paras),
            selected_indices := {hd (sorted_list_of_set (selected_indices e))}\<rparr>)"
    by (rule on_merge_adjacent [OF assms a])
next
  assume "\<not> adjacent (sorted_list_of_set (selected_indices e))"
  then show "on_merge e = Inr (ShowWarning ''Merge'' ''Selected must be adjacent.'', e)"
    using assms(1,2) by (simp add: on_merge_def)
qed

theorem on_merge_spec_witness:
  "(\<exists>e'. on_merge (editor_of three_paras {0, 1} None)
            = Inr (ShowInfo ''Merge'' ''Paragraphs merged into P1.'', e')
        \<and> paragraphs_by_page e' 0
            = Some [\<lparr>p_bbox = (0, 0, 30, 15), p_text = u ''A'' @ u [CHR 0x0A] @ u ''B'',
                     p_words = [mk_word 0 0 10 10 ''A'', mk_word 20 5 30 15 ''B'']\<rparr>,
                    three_paras ! 2])
   \<and> on_merge (editor_of three_paras {0, 2} None)
       = Inr (ShowWarning ''Merge'' ''Selected must be adjacent.'',
              editor_of three_paras {0, 2} None)"
proof -
  have p: "paragraphs_by_page (editor_of three_paras S None)
             (current_page (editor_of three_paras S None)) = Some three_paras" for S
    by (simp add: loose_editor_simps)
  have s1: "sorted_list_of_set (selected_indices (editor_of three_paras {0, 1} None)) = [0, 1]"
    by (simp add: loose_editor_simps)
  have s2: "sorted_list_of_set (selected_indices (editor_of three_paras {0, 2} None)) = [0, 2]"
    by (simp add: loose_editor_simps)
  have c1: "2 \<le> card (selected_indices (editor_of three_paras {0, 1} None))"
    and c2: "2 \<le> card (selected_indices (editor_of three_paras {0, 2} None))"
    by (simp_all add: loose_editor_simps)
  have r1: "\<forall>i \<in> selected_indices (editor_of three_paras {0, 1} None). i < length three_paras"
    and r2: "\<forall>i \<in> selected_indices (editor_of three_paras {0, 2} None). i < length three_paras"
    by (simp_all add: loose_editor_simps three_paras_def)
  have a1: "adjacent [0, 1]" and a2: "\<not> adjacent [0, 2]"
    by (simp_all add: adjacent_def)
  have A: "\<exists>e'. on_merge (editor_of three_paras {0, 1} None)
            = Inr (ShowInfo ''Merge'' ''Paragraphs merged into P1.'', e')
        \<and> paragraphs_by_page e' 0
            = Some [\<lparr>p_bbox = (0, 0, 30, 15), p_text = u ''A'' @ u [CHR 0x0A] @ u ''B'',
                     p_words = [mk_word 0 0 10 10 ''A'', mk_word 20 5 30 15 ''B'']\<rparr>,
                    three_paras ! 2]"
    using on_merge_spec [OF p c1 r1] unfolding s1 using a1
    by (simp add: loose_editor_simps ed_push_undo_def three_paras_def bbox_union_def)
  have B: "on_merge (editor_of three_paras {0, 2} None)
       = Inr (ShowWarning ''Merge'' ''Selected must be adjacent.'',
              editor_of three_paras {0, 2} None)"
    using on_merge_spec [OF p c2 r2] unfolding s2 using a2 by simp
  from A B show ?thesis by blast
qed

section \<open>Nested sections: the stack, the counters and the ids\<close>

declare close_to_level.simps [simp del] close_all.simps [simp del]

lemma level_map_range: "level_map tag = Some lvl \<Longrightarrow> lvl \<in> {1, 2, 3, 4}"
  by (auto simp: level_map_def split: if_splits)

lemma level_map_h: "level_map (u ''h1'') = Some 1" "level_map (u ''h2'') = Some 2"
  "level_map (u ''h3'') = Some 3" "level_map (u ''h4'') = Some 4"
  by (simp_all add: level_map_def u_def)

lemma section_ids_append: "section_ids (xs @ ys) = section_ids xs @ section_ids ys"
  by (induction xs rule: section_ids.induct) simp_all

lemma section_ids_closes: "section_ids (replicate n SectionClose) = []"
  by (induction n) simp_all

lemma close_to_level_frame:
  "counters (close_to_level t b) = counters b
   \<and> base_opened (close_to_level t b) = base_opened b
   \<and> section_ids (out (close_to_level t b)) = section_ids (out b)
   \<and> open_stack (close_to_level t b) = rev (dropWhile (\<lambda>x. t \<le> x) (rev (open_stack b)))"
proof (induction t b rule: close_to_level.induct)
  case (1 t b)
  show ?case
  proof (cases "open_stack b \<noteq> [] \<and> t \<le> last (open_stack b)")
    case True
    then obtain xs x where s: "open_stack b = xs @ [x]" and x: "t \<le> x"
      by (metis append_butlast_last_id)
    from True have c: "close_to_level t b = close_to_level t
          (b\<lparr>out := out b @ [SectionClose], open_stack := butlast (open_stack b)\<rparr>)"
      by (subst close_to_level.simps) simp
    show ?thesis
      unfolding c using "1.IH" [OF True] s x by (simp add: section_ids_append)
  next
    case False
    then have c: "close_to_level t b = b"
      by (subst close_to_level.simps) auto
    from False have "dropWhile (\<lambda>x. t \<le> x) (rev (open_stack b)) = rev (open_stack b)"
      by (cases "open_stack b" rule: rev_cases) auto
    then show ?thesis unfolding c by simp
  qed
qed

lemma close_all_frame:
  "section_ids (out (close_all b)) = section_ids (out b)
   \<and> out (close_all b) = out b @ replicate (length (open_stack b)) SectionClose"
proof (induction b rule: close_all.induct)
  case (1 b)
  show ?case
  proof (cases "open_stack b \<noteq> []")
    case True
    then have c: "close_all b
        = close_all (b\<lparr>out := out b @ [SectionClose], open_stack := butlast (open_stack b)\<rparr>)"
      by (subst close_all.simps) simp
    from True have l: "length (open_stack b) = Suc (length (butlast (open_stack b)))"
      by (cases "open_stack b" rule: rev_cases) auto
    show ?thesis
      unfolding c using "1.IH" [OF True]
      by (simp add: section_ids_append l replicate_append_same section_ids_closes
            del: length_butlast)
  next
    case False
    then have c: "close_all b = b" by (subst close_all.simps) simp
    show ?thesis unfolding c using False by simp
  qed
qed

lemma pop_sorted:
  assumes "sorted_wrt (<) (stk :: nat list)"
  shows "sorted_wrt (<) (rev (dropWhile (\<lambda>x. t \<le> x) (rev stk)))
     \<and> (\<forall>x \<in> set (rev (dropWhile (\<lambda>x. t \<le> x) (rev stk))). x < t)
     \<and> set (rev (dropWhile (\<lambda>x. t \<le> x) (rev stk))) \<subseteq> set stk"
  using assms
proof (induction stk rule: rev_induct)
  case Nil
  then show ?case by simp
next
  case (snoc x xs)
  then have s: "sorted_wrt (<) xs" and a: "\<forall>y \<in> set xs. y < x"
    by (simp_all add: sorted_wrt_append)
  show ?case
  proof (cases "t \<le> x")
    case True
    then show ?thesis using snoc.IH [OF s] by auto
  next
    case False
    then show ?thesis using snoc.prems a by (auto simp: sorted_wrt_append)
  qed
qed

lemma stack_depth:
  assumes "sorted_wrt (<) (stk :: nat list)" and "\<forall>x \<in> set stk. x \<le> 4"
  shows "length stk \<le> 5"
proof -
  have d: "distinct stk"
    using assms(1) by (simp add: strict_sorted_iff [symmetric] sorted_wrt_iff_nth_less distinct_conv_nth)
      (metis less_irrefl_nat nat_neq_iff)
  have "set stk \<subseteq> {0..4}" using assms(2) by auto
  then have "card (set stk) \<le> card {0..4::nat}" by (rule card_mono [rotated]) simp
  then show ?thesis using d by (simp add: distinct_card)
qed

lemma lex_lt_trans: "lex_lt xs ys \<Longrightarrow> lex_lt ys zs \<Longrightarrow> lex_lt xs zs"
  unfolding lex_lt_def by (rule lexord_trans) (auto simp: trans_def)

lemma lex_lt_irrefl: "\<not> lex_lt xs xs"
  unfolding lex_lt_def by (rule lexord_irreflexive) simp

lemma bump_counters_5:
  assumes "lvl \<in> {1, 2, 3, 4}"
  shows "bump_counters lvl [c0, c1, c2, c3, c4]
     = (if lvl = 1 then [c0, c1 + 1, 0, 0, 0]
        else if lvl = 2 then [c0, c1, c2 + 1, 0, 0]
        else if lvl = 3 then [c0, c1, c2, c3 + 1, 0]
        else [c0, c1, c2, c3, c4 + 1])"
  using assms by (auto simp: bump_counters_def upt_rec [of _ 5])

lemma length5: "length xs = 5 \<Longrightarrow> \<exists>c0 c1 c2 c3 c4. xs = [c0, c1, c2, c3, c4]"
  by (cases xs; simp; cases "tl xs"; simp; cases "tl (tl xs)"; simp;
      cases "tl (tl (tl xs))"; simp; cases "tl (tl (tl (tl xs)))"; simp)

lemma bump_counters_props:
  assumes "lvl \<in> {1, 2, 3, 4}" and "length cs = 5"
  shows "length (bump_counters lvl cs) = 5"
    and "lex_lt (tl cs) (tl (bump_counters lvl cs))"
    and "id_key (p # map (\<lambda>i. bump_counters lvl cs ! i) [1..<lvl + 1]) = tl (bump_counters lvl cs)"
proof -
  from length5 [OF assms(2)] obtain c0 c1 c2 c3 c4 where cs: "cs = [c0, c1, c2, c3, c4]"
    by blast
  show "length (bump_counters lvl cs) = 5"
    unfolding cs bump_counters_5 [OF assms(1)] by simp
  show "lex_lt (tl cs) (tl (bump_counters lvl cs))"
    unfolding cs bump_counters_5 [OF assms(1)] by (simp add: lex_lt_def)
  show "id_key (p # map (\<lambda>i. bump_counters lvl cs ! i) [1..<lvl + 1]) = tl (bump_counters lvl cs)"
    unfolding cs bump_counters_5 [OF assms(1)] using assms(1)
    by (auto simp: id_key_def upt_rec [of _ 2] upt_rec [of _ 3] upt_rec [of _ 4] upt_rec [of _ 5]
          numeral_eq_Suc)
qed

lemma zero_key_least:
  assumes "length v = 4"
  shows "replicate 4 0 = v \<or> lex_lt (replicate 4 0) v"
proof -
  from assms obtain a b c d where v: "v = [a, b, c, d]"
    by (cases v; simp; cases "tl v"; simp; cases "tl (tl v)"; simp; cases "tl (tl (tl v))"; simp)
  show ?thesis unfolding v by (auto simp: lex_lt_def numeral_eq_Suc)
qed

lemma build_step_heading:
  assumes "level_map (region_tag r) = Some lvl"
  shows "counters (build_step cfg P pg r b) = bump_counters lvl (counters b)"
    and "open_stack (build_step cfg P pg r b)
          = rev (dropWhile (\<lambda>x. lvl \<le> x)
                  (rev (open_stack b @ (if base_opened b then [] else [0])))) @ [lvl]"
    and "section_ids (out (build_step cfg P pg r b))
          = section_ids (out b) @ (if base_opened b then [] else [[P + 1]])
            @ [(P + 1) # map (\<lambda>i. bump_counters lvl (counters b) ! i) [1..<lvl + 1]]"
    and "base_opened (build_step cfg P pg r b)"
  using assms
  by (simp_all add: build_step_def Let_def open_base_def close_to_level_frame
        section_ids_append)

lemma build_step_other:
  assumes "level_map (region_tag r) = None"
  shows "counters (build_step cfg P pg r b) = counters b"
    and "open_stack (build_step cfg P pg r b)
          = open_stack b @ (if base_opened b then [] else [0])"
    and "section_ids (out (build_step cfg P pg r b))
          = section_ids (out b) @ (if base_opened b then [] else [[P + 1]])"
    and "base_opened (build_step cfg P pg r b)"
  using assms
  by (simp_all add: build_step_def Let_def open_base_def section_ids_append)

lemma builder_inv_init: "builder_inv builder_init"
  by (simp add: builder_inv_def builder_init_def)

lemma builder_inv_step:
  assumes inv: "builder_inv b"
  shows "builder_inv (build_step cfg P pg r b)"
proof (cases "level_map (region_tag r)")
  case None
  note st = build_step_other [OF None, of cfg P pg b]
  have len: "length (tl (counters b)) = 4" using inv by (simp add: builder_inv_def)
  have zk: "id_key [n] = replicate 4 0" for n by (simp add: id_key_def)
  show ?thesis
  proof (cases "base_opened b")
    case True
    then show ?thesis using inv st(4) unfolding builder_inv_def st(1-3) by simp
  next
    case False
    then have e: "section_ids (out b) = []" "open_stack b = []"
      using inv by (simp_all add: builder_inv_def)
    show ?thesis
      using inv False zero_key_least [OF len] st(4) unfolding builder_inv_def st(1-3) e
      by (simp add: zk)
  qed
next
  case (Some lvl)
  note st = build_step_heading [OF Some, of cfg P pg b]
  have lv: "lvl \<in> {1, 2, 3, 4}" using Some by (rule level_map_range)
  have l5: "length (counters b) = 5" using inv by (simp add: builder_inv_def)
  note bp = bump_counters_props [OF lv l5]
  define cs' where "cs' = bump_counters lvl (counters b)"
  define new where "new = (P + 1) # map (\<lambda>i. bump_counters lvl (counters b) ! i) [1..<lvl + 1]"
  define stk1 where "stk1 = open_stack b @ (if base_opened b then [] else [0])"
  define pop where "pop = rev (dropWhile (\<lambda>x. lvl \<le> x) (rev stk1))"
  define ids' where "ids' = section_ids (out b) @ (if base_opened b then [] else [[P + 1]]) @ [new]"
  have st1: "counters (build_step cfg P pg r b) = cs'"
    unfolding cs'_def by (rule st(1))
  have st2: "open_stack (build_step cfg P pg r b) = pop @ [lvl]"
    unfolding pop_def stk1_def by (rule st(2))
  have st3: "section_ids (out (build_step cfg P pg r b)) = ids'"
    unfolding ids'_def new_def by (rule st(3))
  have len: "length (tl (counters b)) = 4" using l5 by simp
  have zk: "id_key [n] = replicate 4 0" for n by (simp add: id_key_def)
  have knew: "id_key new = tl cs'" unfolding new_def cs'_def by (rule bp(3))
  have grow: "lex_lt (tl (counters b)) (tl cs')" unfolding cs'_def by (rule bp(2))
  have old_lt: "lex_lt (id_key nums) (tl cs')"
    if "nums \<in> set (section_ids (out b))" for nums
    using that inv grow unfolding builder_inv_def by (metis lex_lt_trans)
  have zero_lt: "lex_lt (replicate 4 0) (tl cs')"
    using zero_key_least [OF len] grow by (metis lex_lt_trans)
  have stk1: "sorted_wrt (<) stk1 \<and> (\<forall>x \<in> set stk1. x \<le> 4)"
    using inv by (auto simp: builder_inv_def stk1_def)
  from pop_sorted [of stk1 lvl] stk1
  have pop: "sorted_wrt (<) pop" "\<forall>x \<in> set pop. x < lvl" "set pop \<subseteq> set stk1"
    unfolding pop_def by blast+
  have c2: "sorted_wrt (<) (pop @ [lvl])"
    using pop by (simp add: sorted_wrt_append)
  have c3: "\<forall>x \<in> set (pop @ [lvl]). x \<le> 4"
    using pop(3) stk1 lv by auto
  have lnew: "1 \<le> length new \<and> length new \<le> 5" unfolding new_def using lv by auto
  have c5: "sorted_wrt lex_lt (map id_key ids')"
  proof (cases "base_opened b")
    case True
    have "sorted_wrt lex_lt (map id_key (section_ids (out b)))"
      using inv by (simp add: builder_inv_def)
    then show ?thesis using True old_lt unfolding ids'_def
      by (simp add: sorted_wrt_append knew)
  next
    case False
    then have "section_ids (out b) = []" using inv by (simp add: builder_inv_def)
    then show ?thesis using False zero_lt unfolding ids'_def by (simp add: knew zk)
  qed
  have c6: "\<forall>nums \<in> set ids'. 1 \<le> length nums \<and> length nums \<le> 5
      \<and> (id_key nums = tl cs' \<or> lex_lt (id_key nums) (tl cs'))"
  proof
    fix nums assume "nums \<in> set ids'"
    then consider "nums \<in> set (section_ids (out b))" | "nums = [P + 1]" | "nums = new"
      unfolding ids'_def by (auto split: if_splits)
    then show "1 \<le> length nums \<and> length nums \<le> 5
      \<and> (id_key nums = tl cs' \<or> lex_lt (id_key nums) (tl cs'))"
    proof cases
      case 1
      then show ?thesis using inv old_lt unfolding builder_inv_def by blast
    next
      case 2
      then show ?thesis using zero_lt by (simp add: zk)
    next
      case 3
      then show ?thesis using lnew knew by simp
    qed
  qed
  have c1: "length cs' = 5" unfolding cs'_def by (rule bp(1))
  show ?thesis
    unfolding builder_inv_def st1 st2 st3
    using c1 c2 c3 c5 c6 st(4) by simp
qed

lemma builder_inv_fold:
  "builder_inv b \<Longrightarrow> builder_inv (fold (build_step cfg P pg) regs b)"
  by (induction regs arbitrary: b) (simp_all add: builder_inv_step)

lemma builder_inv_loop: "builder_inv (build_loop cfg regs P pg)"
  unfolding build_loop_def by (rule builder_inv_fold [OF builder_inv_init])

lemma siblings_from_keys:
  assumes lt: "lex_lt (id_key a) (id_key b)"
    and len: "length a = length b" and la: "1 \<le> length a" "length a \<le> 5"
    and bl: "butlast a = butlast b"
  shows "last a < last b"
proof -
  from la(1) obtain xs x where a: "a = xs @ [x]" by (cases a rule: rev_cases) auto
  from la(1) len obtain ys y where b: "b = ys @ [y]" by (cases b rule: rev_cases) auto
  from bl a b have ys: "ys = xs" by simp
  show ?thesis
  proof (cases xs)
    case Nil
    then show ?thesis using lt a b ys by (simp add: id_key_def lex_lt_irrefl)
  next
    case (Cons p ps)
    have "(ps @ x # replicate (5 - length a) 0, ps @ y # replicate (5 - length a) 0)
        \<in> lexord {(a, b). a < b}"
      using lt len unfolding a b ys Cons by (simp add: id_key_def lex_lt_def)
    then have "(x # replicate (5 - length a) 0, y # replicate (5 - length a) 0)
        \<in> lexord {(a, b). a < (b::nat)}"
      by (simp add: lexord_same_pref_iff)
    then have "x < y"
      using lex_lt_irrefl [of "replicate (5 - length a) 0"] by (auto simp: lex_lt_def)
    then show ?thesis by (simp add: a b)
  qed
qed

lemma close_to_level_out:
  "out (close_to_level t b)
     = out b @ replicate (length (takeWhile (\<lambda>x. t \<le> x) (rev (open_stack b)))) SectionClose"
proof (induction t b rule: close_to_level.induct)
  case (1 t b)
  show ?case
  proof (cases "open_stack b \<noteq> [] \<and> t \<le> last (open_stack b)")
    case True
    then obtain xs x where s: "open_stack b = xs @ [x]" and x: "t \<le> x"
      by (metis append_butlast_last_id)
    from True have c: "close_to_level t b = close_to_level t
          (b\<lparr>out := out b @ [SectionClose], open_stack := butlast (open_stack b)\<rparr>)"
      by (subst close_to_level.simps) simp
    show ?thesis
      unfolding c using "1.IH" [OF True] s x by (simp add: replicate_append_same)
  next
    case False
    then have c: "close_to_level t b = b"
      by (subst close_to_level.simps) auto
    from False have "takeWhile (\<lambda>x. t \<le> x) (rev (open_stack b)) = []"
      by (cases "open_stack b" rule: rev_cases) auto
    then show ?thesis unfolding c by simp
  qed
qed

lemma build_step_heading_out:
  assumes "level_map (region_tag r) = Some lvl"
  shows "out (build_step cfg P pg r b)
          = out b @ (if base_opened b then [] else [SectionOpen [P + 1]])
            @ replicate (length (takeWhile (\<lambda>x. lvl \<le> x)
                 (rev (open_stack b @ (if base_opened b then [] else [0]))))) SectionClose
            @ [SectionOpen ((P + 1) # map (\<lambda>i. bump_counters lvl (counters b) ! i) [1..<lvl + 1]),
               Element (region_tag r) (r_id r) (region_text_esc cfg pg r)]"
  using assms
  by (simp add: build_step_def Let_def open_base_def close_to_level_frame close_to_level_out)

lemma region_tag_mk:
  "region_tag (mk_region i ''h1'' t) = u ''h1''" "region_tag (mk_region i ''h2'' t) = u ''h2''"
  "region_tag (mk_region i ''h3'' t) = u ''h3''" "region_tag (mk_region i ''h4'' t) = u ''h4''"
  by (simp_all add: region_tag_def mk_region_def py_lower_def u_def)

lemma level_map_mk:
  "level_map (region_tag (mk_region i ''h1'' t)) = Some 1"
  "level_map (region_tag (mk_region i ''h2'' t)) = Some 2"
  "level_map (region_tag (mk_region i ''h3'' t)) = Some 3"
  "level_map (region_tag (mk_region i ''h4'' t)) = Some 4"
  by (simp_all add: region_tag_mk level_map_h)

lemmas step_h1 = build_step_heading [OF level_map_mk(1)]
lemmas step_h2 = build_step_heading [OF level_map_mk(2)]
lemmas step_h3 = build_step_heading [OF level_map_mk(3)]
lemmas step_h4 = build_step_heading [OF level_map_mk(4)]

lemma bump_eval:
  "bump_counters 1 [c0, c1, c2, c3, c4] = [c0, c1 + 1, 0, 0, 0]"
  "bump_counters 2 [c0, c1, c2, c3, c4] = [c0, c1, c2 + 1, 0, 0]"
  "bump_counters 3 [c0, c1, c2, c3, c4] = [c0, c1, c2, c3 + 1, 0]"
  "bump_counters 4 [c0, c1, c2, c3, c4] = [c0, c1, c2, c3, c4 + 1]"
  "bump_counters (Suc 0) [c0, c1, c2, c3, c4] = [c0, c1 + 1, 0, 0, 0]"
  by (simp_all add: bump_counters_5)

lemma builder_init_simps:
  "counters builder_init = [0, 0, 0, 0, 0]" "open_stack builder_init = []"
  "out builder_init = []" "base_opened builder_init = False"
  by (simp_all add: builder_init_def)

lemma h1_to_h4_stacks:
  "open_depths default_config h1_to_h4 0 empty_page = [0, 2, 3, 4, 5]"
proof -
  let ?f = "build_step default_config 0 empty_page"
  let ?r1 = "mk_region ''r1'' ''h1'' ''A''" and ?r2 = "mk_region ''r2'' ''h2'' ''B''"
  let ?r3 = "mk_region ''r3'' ''h3'' ''C''" and ?r4 = "mk_region ''r4'' ''h4'' ''D''"
  let ?b1 = "?f ?r1 builder_init"
  let ?b2 = "?f ?r2 ?b1"
  let ?b3 = "?f ?r3 ?b2"
  let ?b4 = "?f ?r4 ?b3"
  have s1: "open_stack ?b1 = [0, 1]"
    by (simp add: step_h1 builder_init_simps)
  have s2: "open_stack ?b2 = [0, 1, 2]"
    by (subst step_h2(2)) (simp add: step_h1(4) s1)
  have s3: "open_stack ?b3 = [0, 1, 2, 3]"
    by (subst step_h3(2)) (simp add: step_h2(4) s2)
  have s4: "open_stack ?b4 = [0, 1, 2, 3, 4]"
    by (subst step_h4(2)) (simp add: step_h3(4) s3)
  have u: "[0..<5] = [0, 1, 2, 3, 4]" by (simp add: upt_rec)
  show ?thesis
    unfolding open_depths_def h1_to_h4_def build_loop_def
    by (simp add: u s1 s2 s3 s4 builder_init_simps)
qed

lemma h1_h2_h2_ids:
  "section_ids (build_lines default_config h1_h2_h2 0 empty_page)
     = [[1], [1, 1], [1, 1, 1], [1, 1, 2]]"
proof -
  let ?f = "build_step default_config 0 empty_page"
  let ?r1 = "mk_region ''r1'' ''h1'' ''A''" and ?r2 = "mk_region ''r2'' ''h2'' ''B''"
  let ?r3 = "mk_region ''r3'' ''h2'' ''C''"
  let ?b1 = "?f ?r1 builder_init"
  let ?b2 = "?f ?r2 ?b1"
  let ?b3 = "?f ?r3 ?b2"
  have c1: "counters ?b1 = [0, 1, 0, 0, 0]"
    by (simp add: step_h1 builder_init_simps bump_eval)
  have c2: "counters ?b2 = [0, 1, 1, 0, 0]"
    by (subst step_h2(1)) (simp add: c1 bump_eval)
  have c3: "counters ?b3 = [0, 1, 2, 0, 0]"
    by (subst step_h2(1)) (simp add: c2 bump_eval)
  have i1: "section_ids (out ?b1) = [[1], [1, 1]]"
    by (simp add: step_h1(3) builder_init_simps bump_eval)
  have i2: "section_ids (out ?b2) = [[1], [1, 1], [1, 1, 1]]"
    by (subst step_h2(3)) (simp add: step_h1(4) i1 c1 bump_eval upt_rec [of _ 3])
  have i3: "section_ids (out ?b3) = [[1], [1, 1], [1, 1, 1], [1, 1, 2]]"
    by (subst step_h2(3)) (simp add: step_h2(4) i2 c2 bump_eval upt_rec [of _ 3])
  show ?thesis
    unfolding build_lines_def build_loop_def h1_h2_h2_def
    by (simp add: close_all_frame [THEN conjunct1] i3)
qed

lemma section_ids_build_lines:
  "section_ids (build_lines cfg regs P pg) = section_ids (out (build_loop cfg regs P pg))"
  by (simp add: build_lines_def close_all_frame [THEN conjunct1])

lemma build_h1_h3_lines:
  assumes "region_tag r1 = u ''h1''" and "region_tag r2 = u ''h3''"
  shows "build_lines cfg [r1, r2] P pg =
     [SectionOpen [P + 1],
      SectionOpen [P + 1, 1],
      Element (u ''h1'') (r_id r1) (region_text_esc cfg pg r1),
      SectionOpen [P + 1, 1, 0, 1],
      Element (u ''h3'') (r_id r2) (region_text_esc cfg pg r2),
      SectionClose, SectionClose, SectionClose]"
proof -
  let ?f = "build_step cfg P pg"
  let ?b1 = "?f r1 builder_init"
  let ?b2 = "?f r2 ?b1"
  have l1: "level_map (region_tag r1) = Some 1" and l2: "level_map (region_tag r2) = Some 3"
    by (simp_all add: assms level_map_h)
  note h1 = build_step_heading [OF l1] build_step_heading_out [OF l1]
  note h3 = build_step_heading [OF l2] build_step_heading_out [OF l2]
  have c1: "counters ?b1 = [0, 1, 0, 0, 0]"
    by (subst h1(1)) (simp add: builder_init_simps bump_eval)
  have s1: "open_stack ?b1 = [0, 1]"
    by (subst h1(2)) (simp add: builder_init_simps)
  have o1: "out ?b1 = [SectionOpen [P + 1], SectionOpen [P + 1, 1],
                        Element (u ''h1'') (r_id r1) (region_text_esc cfg pg r1)]"
    by (subst h1(5)) (simp add: builder_init_simps bump_eval assms)
  have s2: "open_stack ?b2 = [0, 1, 3]"
    by (subst h3(2)) (simp add: h1(4) s1)
  have o2: "out ?b2 = [SectionOpen [P + 1], SectionOpen [P + 1, 1],
                        Element (u ''h1'') (r_id r1) (region_text_esc cfg pg r1),
                        SectionOpen [P + 1, 1, 0, 1],
                        Element (u ''h3'') (r_id r2) (region_text_esc cfg pg r2)]"
    by (subst h3(5))
       (simp add: h1(4) s1 o1 c1 bump_eval assms upt_rec [of _ 4] upt_rec [of _ 3] upt_rec [of _ 2])
  show ?thesis
    unfolding build_lines_def build_loop_def
    by (simp add: close_all_frame [THEN conjunct2] o2 s2 numeral_eq_Suc)
qed

text \<open>
  C3, as stated, fails on the count: for an h1 region followed by an h3 region the
  builder writes three section elements, because the page section is opened before the
  first heading section. The two heading sections are nested in it.
\<close>

theorem build_h1_h3_counterexample:
  "count_sections (build_lines default_config h1_h3 0 empty_page) = 3
   \<and> section_ids (build_lines default_config h1_h3 0 empty_page) = [[1], [1, 1], [1, 1, 0, 1]]"
  unfolding h1_h3_def count_sections_def
  by (simp add: build_h1_h3_lines [OF region_tag_mk(1) region_tag_mk(3)])

text \<open>
  C3, amended. For an h1 region followed by an h3 region (h2 skipped), on any page and with
  any settings, the builder returns (it is a total function) exactly these lines: the page
  section, inside it the section of the h1 heading with id \<open>page.1\<close> and the heading,
  inside that the section of the h3 heading with id \<open>page.1.0.1\<close> and the heading, and
  three closing lines. So there are three section elements, the page section and two
  nested heading sections, and no section stands for the skipped h2.
\<close>

theorem build_h1_h3:
  assumes "region_tag r1 = u ''h1''" and "region_tag r2 = u ''h3''"
  shows "build_lines cfg [r1, r2] P pg =
     [SectionOpen [P + 1],
      SectionOpen [P + 1, 1],
      Element (u ''h1'') (r_id r1) (region_text_esc cfg pg r1),
      SectionOpen [P + 1, 1, 0, 1],
      Element (u ''h3'') (r_id r2) (region_text_esc cfg pg r2),
      SectionClose, SectionClose, SectionClose]
   \<and> count_sections (build_lines cfg [r1, r2] P pg) = 3
   \<and> open_depths cfg [r1, r2] P pg = [0, 2, 3]"
proof -
  have l1: "level_map (region_tag r1) = Some 1" and l2: "level_map (region_tag r2) = Some 3"
    by (simp_all add: assms level_map_h)
  have s1: "open_stack (build_step cfg P pg r1 builder_init) = [0, 1]"
    by (subst build_step_heading(2) [OF l1]) (simp add: builder_init_simps)
  have s2: "open_stack (build_step cfg P pg r2 (build_step cfg P pg r1 builder_init)) = [0, 1, 3]"
    by (subst build_step_heading(2) [OF l2]) (simp add: build_step_heading(4) [OF l1] s1)
  have u: "[0..<3] = [0, 1, 2]" by (simp add: upt_rec)
  have d: "open_depths cfg [r1, r2] P pg = [0, 2, 3]"
    unfolding open_depths_def build_loop_def
    by (simp add: u s1 s2 builder_init_simps)
  show ?thesis
    unfolding build_h1_h3_lines [OF assms] count_sections_def using d by simp
qed

theorem build_h1_h3_witness:
  "build_lines default_config h1_h3 0 empty_page =
     [SectionOpen [1],
      SectionOpen [1, 1],
      Element (u ''h1'') (u ''r1'')
        (region_text_esc default_config empty_page (mk_region ''r1'' ''h1'' ''Intro'')),
      SectionOpen [1, 1, 0, 1],
      Element (u ''h3'') (u ''r2'')
        (region_text_esc default_config empty_page (mk_region ''r2'' ''h3'' ''Detail'')),
      SectionClose, SectionClose, SectionClose]"
  using build_h1_h3 [of "mk_region ''r1'' ''h1'' ''Intro''" "mk_region ''r2'' ''h3'' ''Detail''"
      default_config 0 empty_page, OF region_tag_mk(1) region_tag_mk(3)]
  unfolding h1_h3_def by (simp add: mk_region_def)

text \<open>
  C4, as stated, fails on the bound: the headings h1, h2, h3, h4 in this order leave five
  sections open at once, the page section and one for each heading level.
\<close>

theorem build_depth_counterexample:
  "open_depths default_config h1_to_h4 0 empty_page = [0, 2, 3, 4, 5]"
  by (rule h1_to_h4_stacks)

text \<open>
  C4, amended. For every ordered region list (empty or not), any page and any settings:
  after each region the stack of open sections holds at most five entries (the page
  section and one per heading level 1 to 4); the section ids, in document order, are
  strictly increasing in the lexicographic order of their counters, hence pairwise
  different; and for two sections of the same level with the same parent path (ids of
  equal length that agree except in the last number) the later one has the strictly
  greater last number.
\<close>

theorem build_sections_ordered:
  "(\<forall>n \<le> length regs. length (open_stack (build_loop cfg (take n regs) P pg)) \<le> 5)
   \<and> sorted_wrt lex_lt (map id_key (section_ids (build_lines cfg regs P pg)))
   \<and> distinct (section_ids (build_lines cfg regs P pg))
   \<and> (\<forall>i j. i < j \<longrightarrow> j < length (section_ids (build_lines cfg regs P pg)) \<longrightarrow>
         length (section_ids (build_lines cfg regs P pg) ! i)
           = length (section_ids (build_lines cfg regs P pg) ! j) \<longrightarrow>
         butlast (section_ids (build_lines cfg regs P pg) ! i)
           = butlast (section_ids (build_lines cfg regs P pg) ! j) \<longrightarrow>
         last (section_ids (build_lines cfg regs P pg) ! i)
           < last (section_ids (build_lines cfg regs P pg) ! j))"
proof -
  let ?ids = "section_ids (build_lines cfg regs P pg)"
  have inv: "builder_inv (build_loop cfg rs P pg)" for rs
    by (rule builder_inv_loop)
  have depth: "\<forall>n \<le> length regs. length (open_stack (build_loop cfg (take n regs) P pg)) \<le> 5"
    using inv stack_depth unfolding builder_inv_def by blast
  have srt: "sorted_wrt lex_lt (map id_key ?ids)"
    using inv [of regs] unfolding section_ids_build_lines builder_inv_def by blast
  have lens: "\<forall>nums \<in> set ?ids. 1 \<le> length nums \<and> length nums \<le> 5"
    using inv [of regs] unfolding section_ids_build_lines builder_inv_def by blast
  have lt: "lex_lt (id_key (?ids ! i)) (id_key (?ids ! j))" if "i < j" "j < length ?ids" for i j
    using srt that by (simp add: sorted_wrt_iff_nth_less)
  have dist: "distinct ?ids"
  proof -
    have "?ids ! i \<noteq> ?ids ! j" if "i < j" "j < length ?ids" for i j
      using lt [OF that] lex_lt_irrefl by metis
    then show ?thesis
      unfolding distinct_conv_nth by (metis nat_neq_iff)
  qed
  have sib: "last (?ids ! i) < last (?ids ! j)"
    if "i < j" "j < length ?ids" "length (?ids ! i) = length (?ids ! j)"
       "butlast (?ids ! i) = butlast (?ids ! j)" for i j
  proof -
    have "?ids ! i \<in> set ?ids" using that by simp
    then have "1 \<le> length (?ids ! i)" "length (?ids ! i) \<le> 5" using lens by blast+
    then show ?thesis
      using siblings_from_keys [OF lt [OF that(1,2)] that(3) _ _ that(4)] by blast
  qed
  from depth srt dist sib show ?thesis by blast
qed

theorem build_sections_ordered_witness:
  "length (open_stack (build_loop default_config (take 3 h1_h2_h2) 0 empty_page)) \<le> 5
   \<and> section_ids (build_lines default_config h1_h2_h2 0 empty_page)
       = [[1], [1, 1], [1, 1, 1], [1, 1, 2]]
   \<and> last (section_ids (build_lines default_config h1_h2_h2 0 empty_page) ! 2)
       < last (section_ids (build_lines default_config h1_h2_h2 0 empty_page) ! 3)"
proof -
  let ?ids = "section_ids (build_lines default_config h1_h2_h2 0 empty_page)"
  note t = build_sections_ordered [of h1_h2_h2 default_config 0 empty_page]
  have n: "(3::nat) \<le> length h1_h2_h2" by (simp add: h1_h2_h2_def)
  from t n have d: "length (open_stack (build_loop default_config (take 3 h1_h2_h2) 0 empty_page)) \<le> 5"
    by blast
  have i: "?ids = [[1], [1, 1], [1, 1, 1], [1, 1, 2]]" by (rule h1_h2_h2_ids)
  have h: "(2::nat) < 3" "3 < length ?ids" "length (?ids ! 2) = length (?ids ! 3)"
    "butlast (?ids ! 2) = butlast (?ids ! 3)"
    unfolding i by simp_all
  from t h have "last (?ids ! 2) < last (?ids ! 3)" by blast
  with d i show ?thesis by blast
qed

end
